theory Spec2Isabelle
  imports Main "HOL-Library.Word"
begin

section \<open>JavaScript strings and byte arrays\<close>

text \<open>
  A JavaScript string is a sequence of 16-bit code units; a \<open>Uint8Array\<close> is a sequence
  of bytes. String literals of the source are written with \<open>ascii\<close>.
\<close>

type_synonym jsstring = "16 word list"
type_synonym bytes = "8 word list"

definition ascii :: "string \<Rightarrow> jsstring" where
  "ascii s = map of_char s"

definition is_surrogate :: "nat \<Rightarrow> bool" where
  "is_surrogate c \<longleftrightarrow> 0xD800 \<le> c \<and> c \<le> 0xDFFF"

text \<open>
  \<open>code_points\<close> is ECMAScript's StringToCodePoints: a lead surrogate followed by a trail
  surrogate is one supplementary code point, every other code unit (a lone surrogate
  included) is a code point of its own. \<open>utf16_encode\<close> is UTF16EncodeCodePoint.
\<close>

fun code_points :: "jsstring \<Rightarrow> nat list" where
  "code_points [] = []"
| "code_points [u] = [unat u]"
| "code_points (u1 # u2 # us) =
     (if 0xD800 \<le> unat u1 \<and> unat u1 \<le> 0xDBFF \<and> 0xDC00 \<le> unat u2 \<and> unat u2 \<le> 0xDFFF
      then (0x10000 + (unat u1 - 0xD800) * 0x400 + (unat u2 - 0xDC00)) # code_points us
      else unat u1 # code_points (u2 # us))"

definition utf16_encode :: "nat \<Rightarrow> jsstring" where
  "utf16_encode c =
     (if c < 0x10000 then [of_nat c]
      else [of_nat (0xD800 + (c - 0x10000) div 0x400), of_nat (0xDC00 + (c - 0x10000) mod 0x400)])"

subsection \<open>TextEncoder\<close>

text \<open>
  \<open>new TextEncoder().encode(s)\<close>: the string is converted to scalar values (a lone
  surrogate becomes U+FFFD) and each scalar value is written in UTF-8.
\<close>

definition scalar_value :: "nat \<Rightarrow> nat" where
  "scalar_value c = (if is_surrogate c then 0xFFFD else c)"

definition utf8_encode :: "nat \<Rightarrow> bytes" where
  "utf8_encode c =
     (if c < 0x80 then [of_nat c]
      else if c < 0x800 then [of_nat (0xC0 + c div 0x40), of_nat (0x80 + c mod 0x40)]
      else if c < 0x10000 then
        [of_nat (0xE0 + c div 0x1000), of_nat (0x80 + c div 0x40 mod 0x40), of_nat (0x80 + c mod 0x40)]
      else
        [of_nat (0xF0 + c div 0x40000), of_nat (0x80 + c div 0x1000 mod 0x40),
         of_nat (0x80 + c div 0x40 mod 0x40), of_nat (0x80 + c mod 0x40)])"

definition TextEncoder_encode :: "jsstring \<Rightarrow> bytes" where
  "TextEncoder_encode s = concat (map (\<lambda>c. utf8_encode (scalar_value c)) (code_points s))"

subsection \<open>TextDecoder\<close>

text \<open>
  The UTF-8 decoder of the Encoding standard, one byte at a time, with the replacement
  error mode of \<open>new TextDecoder()\<close>. A byte that cannot continue the pending sequence
  yields U+FFFD and is then read again as the first byte of a new sequence
  (\<open>utf8_lead\<close>). \<open>utf8_end\<close> is the handler at end-of-queue, which only a
  non-streaming \<open>decode\<close> call reaches. The masks and shifts of the standard are
  written arithmetically: on the bytes of each range, \<open>byte & 0x1F\<close> is \<open>b - 0xC0\<close>,
  \<open>byte & 0xF\<close> is \<open>b - 0xE0\<close>, \<open>byte & 0x7\<close> is \<open>b - 0xF0\<close>, and
  \<open>(code point << 6) | (byte & 0x3F)\<close> is \<open>code_point * 0x40 + (b - 0x80)\<close>.
\<close>

record utf8_decoder =
  code_point :: nat
  bytes_seen :: nat
  bytes_needed :: nat
  lower_boundary :: nat
  upper_boundary :: nat

definition utf8_init :: utf8_decoder where
  "utf8_init = \<lparr>code_point = 0, bytes_seen = 0, bytes_needed = 0,
                 lower_boundary = 0x80, upper_boundary = 0xBF\<rparr>"

definition utf8_lead :: "nat \<Rightarrow> utf8_decoder \<times> nat list" where
  "utf8_lead b =
     (if b \<le> 0x7F then (utf8_init, [b])
      else if 0xC2 \<le> b \<and> b \<le> 0xDF then
        (utf8_init\<lparr>bytes_needed := 1, code_point := b - 0xC0\<rparr>, [])
      else if 0xE0 \<le> b \<and> b \<le> 0xEF then
        (utf8_init\<lparr>lower_boundary := (if b = 0xE0 then 0xA0 else 0x80),
                   upper_boundary := (if b = 0xED then 0x9F else 0xBF),
                   bytes_needed := 2, code_point := b - 0xE0\<rparr>, [])
      else if 0xF0 \<le> b \<and> b \<le> 0xF4 then
        (utf8_init\<lparr>lower_boundary := (if b = 0xF0 then 0x90 else 0x80),
                   upper_boundary := (if b = 0xF4 then 0x8F else 0xBF),
                   bytes_needed := 3, code_point := b - 0xF0\<rparr>, [])
      else (utf8_init, [0xFFFD]))"

definition utf8_byte :: "utf8_decoder \<Rightarrow> nat \<Rightarrow> utf8_decoder \<times> nat list" where
  "utf8_byte d b =
     (if bytes_needed d = 0 then utf8_lead b
      else if b < lower_boundary d \<or> upper_boundary d < b then
        (case utf8_lead b of (d', out) \<Rightarrow> (d', 0xFFFD # out))
      else
        (let cp = code_point d * 0x40 + (b - 0x80) in
         if bytes_seen d + 1 \<noteq> bytes_needed d then
           (d\<lparr>lower_boundary := 0x80, upper_boundary := 0xBF,
              code_point := cp, bytes_seen := bytes_seen d + 1\<rparr>, [])
         else (utf8_init, [cp])))"

definition utf8_end :: "utf8_decoder \<Rightarrow> utf8_decoder \<times> nat list" where
  "utf8_end d = (if bytes_needed d \<noteq> 0 then (utf8_init, [0xFFFD]) else (d, []))"

fun utf8_run :: "utf8_decoder \<Rightarrow> bytes \<Rightarrow> utf8_decoder \<times> nat list" where
  "utf8_run d [] = (d, [])"
| "utf8_run d (b # bs) =
     (case utf8_byte d (unat b) of (d1, out1) \<Rightarrow>
      (case utf8_run d1 bs of (d2, out2) \<Rightarrow> (d2, out1 @ out2)))"

text \<open>
  The \<open>TextDecoder\<close> object: the decoder, the ``BOM seen'' flag and the ``do not flush''
  flag. \<open>decode(input, {stream})\<close> starts from a new decoder unless the previous call
  was a streaming one, runs the decoder over the input, flushes it unless the call is a
  streaming one, and serializes the scalar values, dropping one leading U+FEFF.
\<close>

record TextDecoder =
  utf8_state :: utf8_decoder
  BOM_seen :: bool
  do_not_flush :: bool

definition new_TextDecoder :: TextDecoder where
  "new_TextDecoder = \<lparr>utf8_state = utf8_init, BOM_seen = False, do_not_flush = False\<rparr>"

fun serialize :: "bool \<Rightarrow> nat list \<Rightarrow> bool \<times> jsstring" where
  "serialize seen [] = (seen, [])"
| "serialize seen (c # cs) =
     (if \<not> seen \<and> c = 0xFEFF then serialize True cs
      else (case serialize True cs of (seen', out) \<Rightarrow> (seen', utf16_encode c @ out)))"

definition TextDecoder_decode :: "TextDecoder \<Rightarrow> bytes \<Rightarrow> bool \<Rightarrow> TextDecoder \<times> jsstring" where
  "TextDecoder_decode td input stream =
     (let td0 = (if do_not_flush td then td else new_TextDecoder) in
      case utf8_run (utf8_state td0) input of (d1, out1) \<Rightarrow>
      case (if stream then (d1, []) else utf8_end d1) of (d2, out2) \<Rightarrow>
      case serialize (BOM_seen td0) (out1 @ out2) of (seen, str) \<Rightarrow>
        (\<lparr>utf8_state = d2, BOM_seen = seen, do_not_flush = stream\<rparr>, str))"

section \<open>JSON\<close>

text \<open>
  The value \<open>JSON.parse\<close> returns. A number keeps its literal text: its conversion to
  an IEEE double and back to a string is not modelled; wherever the code needs it, the
  model takes the function \<open>nts\<close> (the string JavaScript prints for the number a
  literal denotes) as a parameter, and every theorem holds for every such function.
  An object keeps its members in source order, duplicates included.
\<close>

datatype json =
    JNull
  | JBool bool
  | JNum jsstring
  | JStr jsstring
  | JArr "json list"
  | JObj "(jsstring \<times> json) list"

subsection \<open>JSON.stringify of the object literals the encoder builds\<close>

text \<open>
  QuoteJSONString of ECMAScript: the two-character escapes of the table; a backslash,
  \<open>u\<close> and four lower-case hexadecimal digits for the other control characters and
  for lone surrogates; every other code point as it is.
\<close>

definition hex_digit :: "nat \<Rightarrow> 16 word" where
  "hex_digit n = (if n < 10 then of_nat (0x30 + n) else of_nat (0x61 + (n - 10)))"

definition UnicodeEscape :: "nat \<Rightarrow> jsstring" where
  "UnicodeEscape c = [0x5C, 0x75, hex_digit (c div 0x1000 mod 0x10), hex_digit (c div 0x100 mod 0x10),
                      hex_digit (c div 0x10 mod 0x10), hex_digit (c mod 0x10)]"

definition quote_code_point :: "nat \<Rightarrow> jsstring" where
  "quote_code_point c =
     (if c = 0x08 then [0x5C, 0x62]
      else if c = 0x09 then [0x5C, 0x74]
      else if c = 0x0A then [0x5C, 0x6E]
      else if c = 0x0C then [0x5C, 0x66]
      else if c = 0x0D then [0x5C, 0x72]
      else if c = 0x22 then [0x5C, 0x22]
      else if c = 0x5C then [0x5C, 0x5C]
      else if c < 0x20 \<or> is_surrogate c then UnicodeEscape c
      else utf16_encode c)"

definition QuoteJSONString :: "jsstring \<Rightarrow> jsstring" where
  "QuoteJSONString s = [0x22] @ concat (map quote_code_point (code_points s)) @ [0x22]"

text \<open>
  The encoder only serializes object literals whose properties are strings and booleans:
  \<open>JSON_stringify [(k1, v1), ...]\<close> is \<open>JSON.stringify({k1: v1, ...})\<close>.
\<close>

datatype jsval = VStr jsstring | VBool bool

fun serialize_jsval :: "jsval \<Rightarrow> jsstring" where
  "serialize_jsval (VStr s) = QuoteJSONString s"
| "serialize_jsval (VBool True) = ascii ''true''"
| "serialize_jsval (VBool False) = ascii ''false''"

fun serialize_props :: "(jsstring \<times> jsval) list \<Rightarrow> jsstring" where
  "serialize_props [] = []"
| "serialize_props [(k, v)] = QuoteJSONString k @ ascii '':'' @ serialize_jsval v"
| "serialize_props ((k, v) # p # ps) =
     QuoteJSONString k @ ascii '':'' @ serialize_jsval v @ ascii '','' @ serialize_props (p # ps)"

definition JSON_stringify :: "(jsstring \<times> jsval) list \<Rightarrow> jsstring" where
  "JSON_stringify props = ascii ''{'' @ serialize_props props @ ascii ''}''"

subsection \<open>JSON.parse\<close>

text \<open>
  A recursive-descent parser of the JSON grammar; \<open>None\<close> is the SyntaxError. Each
  parser returns the value and the rest of the input. The tests \<open>length r < length s\<close>
  before a recursive call always succeed, since a value is never empty (lemmas
  \<open>parse_elements_unguarded\<close> and \<open>parse_members_unguarded\<close> below); they make the
  recursion visibly terminating.
\<close>

definition is_ws :: "16 word \<Rightarrow> bool" where
  "is_ws c \<longleftrightarrow> c = 0x09 \<or> c = 0x0A \<or> c = 0x0D \<or> c = 0x20"

definition skip_ws :: "jsstring \<Rightarrow> jsstring" where
  "skip_ws s = dropWhile is_ws s"

definition is_digit :: "16 word \<Rightarrow> bool" where
  "is_digit c \<longleftrightarrow> 0x30 \<le> c \<and> c \<le> 0x39"

definition hex_val :: "16 word \<Rightarrow> nat option" where
  "hex_val c =
     (if 0x30 \<le> c \<and> c \<le> 0x39 then Some (unat c - 0x30)
      else if 0x41 \<le> c \<and> c \<le> 0x46 then Some (unat c - 0x41 + 10)
      else if 0x61 \<le> c \<and> c \<le> 0x66 then Some (unat c - 0x61 + 10)
      else None)"

definition hex4 :: "16 word \<Rightarrow> 16 word \<Rightarrow> 16 word \<Rightarrow> 16 word \<Rightarrow> 16 word option" where
  "hex4 a b c d =
     (case (hex_val a, hex_val b, hex_val c, hex_val d) of
        (Some w, Some x, Some y, Some z) \<Rightarrow> Some (of_nat (((w * 16 + x) * 16 + y) * 16 + z))
      | _ \<Rightarrow> None)"

definition simple_escape :: "16 word \<Rightarrow> 16 word option" where
  "simple_escape e =
     (if e = 0x22 then Some 0x22
      else if e = 0x2F then Some 0x2F
      else if e = 0x5C then Some 0x5C
      else if e = 0x62 then Some 0x08
      else if e = 0x66 then Some 0x0C
      else if e = 0x6E then Some 0x0A
      else if e = 0x72 then Some 0x0D
      else if e = 0x74 then Some 0x09
      else None)"

definition cons_fst :: "'a \<Rightarrow> ('a list \<times> 'b) option \<Rightarrow> ('a list \<times> 'b) option" where
  "cons_fst x r = (case r of None \<Rightarrow> None | Some (xs, rest) \<Rightarrow> Some (x # xs, rest))"

text \<open>The characters of a string literal after its opening quote, up to the closing one.\<close>

fun parse_chars :: "jsstring \<Rightarrow> (jsstring \<times> jsstring) option" where
  "parse_chars [] = None"
| "parse_chars (c # cs) =
     (if c = 0x22 then Some ([], cs)
      else if c = 0x5C then
        (case cs of
           [] \<Rightarrow> None
         | e # r \<Rightarrow>
             if e = 0x75 then
               (case r of
                  h1 # h2 # h3 # h4 # r' \<Rightarrow>
                    (case hex4 h1 h2 h3 h4 of
                       None \<Rightarrow> None
                     | Some u \<Rightarrow> cons_fst u (parse_chars r'))
                | _ \<Rightarrow> None)
             else
               (case simple_escape e of
                  None \<Rightarrow> None
                | Some u \<Rightarrow> cons_fst u (parse_chars r)))
      else if c < 0x20 then None
      else cons_fst c (parse_chars cs))"

text \<open>A number: \<open>-? (0 | [1-9][0-9]*) (. [0-9]+)? ([eE] [+-]? [0-9]+)?\<close>.\<close>

definition parse_integer :: "jsstring \<Rightarrow> jsstring option" where
  "parse_integer s =
     (case s of
        [] \<Rightarrow> None
      | c # cs \<Rightarrow>
          if c = 0x30 then Some cs
          else if 0x31 \<le> c \<and> c \<le> 0x39 then Some (dropWhile is_digit cs)
          else None)"

definition parse_fraction :: "jsstring \<Rightarrow> jsstring option" where
  "parse_fraction s =
     (case s of
        [] \<Rightarrow> Some s
      | c # cs \<Rightarrow>
          if c = 0x2E then
            (if takeWhile is_digit cs = [] then None else Some (dropWhile is_digit cs))
          else Some s)"

definition parse_exponent :: "jsstring \<Rightarrow> jsstring option" where
  "parse_exponent s =
     (case s of
        [] \<Rightarrow> Some s
      | c # cs \<Rightarrow>
          if c = 0x65 \<or> c = 0x45 then
            (let ds = (case cs of [] \<Rightarrow> [] | d # r \<Rightarrow> if d = 0x2D \<or> d = 0x2B then r else cs)
             in if takeWhile is_digit ds = [] then None else Some (dropWhile is_digit ds))
          else Some s)"

definition parse_number :: "jsstring \<Rightarrow> (json \<times> jsstring) option" where
  "parse_number s =
     (case parse_integer (case s of [] \<Rightarrow> [] | c # cs \<Rightarrow> if c = 0x2D then cs else s) of
        None \<Rightarrow> None
      | Some s2 \<Rightarrow>
          (case parse_fraction s2 of
             None \<Rightarrow> None
           | Some s3 \<Rightarrow>
               (case parse_exponent s3 of
                  None \<Rightarrow> None
                | Some s4 \<Rightarrow> Some (JNum (take (length s - length s4) s), s4))))"

definition parse_literal :: "jsstring \<Rightarrow> (json \<times> jsstring) option" where
  "parse_literal s =
     (if take 4 s = ascii ''true'' then Some (JBool True, drop 4 s)
      else if take 5 s = ascii ''false'' then Some (JBool False, drop 5 s)
      else if take 4 s = ascii ''null'' then Some (JNull, drop 4 s)
      else parse_number s)"

function parse_value :: "jsstring \<Rightarrow> (json \<times> jsstring) option"
  and parse_elements :: "jsstring \<Rightarrow> (json list \<times> jsstring) option"
  and parse_members :: "jsstring \<Rightarrow> ((jsstring \<times> json) list \<times> jsstring) option"
where
  "parse_value s =
     (case s of
        [] \<Rightarrow> None
      | c # cs \<Rightarrow>
          if c = 0x7B then
            (case skip_ws cs of
               [] \<Rightarrow> None
             | d # r \<Rightarrow>
                 if d = 0x7D then Some (JObj [], r)
                 else (case parse_members (d # r) of
                         None \<Rightarrow> None
                       | Some (kvs, r') \<Rightarrow> Some (JObj kvs, r')))
          else if c = 0x5B then
            (case skip_ws cs of
               [] \<Rightarrow> None
             | d # r \<Rightarrow>
                 if d = 0x5D then Some (JArr [], r)
                 else (case parse_elements (d # r) of
                         None \<Rightarrow> None
                       | Some (vs, r') \<Rightarrow> Some (JArr vs, r')))
          else if c = 0x22 then
            (case parse_chars cs of
               None \<Rightarrow> None
             | Some (str, r) \<Rightarrow> Some (JStr str, r))
          else parse_literal s)"
| "parse_elements s =
     (case parse_value s of
        None \<Rightarrow> None
      | Some (v, r) \<Rightarrow>
          if length r < length s then
            (case skip_ws r of
               [] \<Rightarrow> None
             | d # r' \<Rightarrow>
                 if d = 0x5D then Some ([v], r')
                 else if d = 0x2C then cons_fst v (parse_elements (skip_ws r'))
                 else None)
          else None)"
| "parse_members s =
     (case s of
        [] \<Rightarrow> None
      | q # s1 \<Rightarrow>
          if q = 0x22 then
            (case parse_chars s1 of
               None \<Rightarrow> None
             | Some (k, s2) \<Rightarrow>
                 if length s2 < length s1 then
                   (case skip_ws s2 of
                      [] \<Rightarrow> None
                    | c # s3 \<Rightarrow>
                        if c = 0x3A then
                          (case parse_value (skip_ws s3) of
                             None \<Rightarrow> None
                           | Some (v, r) \<Rightarrow>
                               if length r < length s then
                                 (case skip_ws r of
                                    [] \<Rightarrow> None
                                  | d # r' \<Rightarrow>
                                      if d = 0x7D then Some ([(k, v)], r')
                                      else if d = 0x2C then
                                        cons_fst (k, v) (parse_members (skip_ws r'))
                                      else None)
                               else None)
                        else None)
                 else None)
          else None)"
  by pat_completeness auto
termination
proof -
  have le: "length (skip_ws s) \<le> length s" for s
    by (simp add: skip_ws_def length_dropWhile_le)
  have a: "length r' < length r" if "skip_ws r = d # r'" for r d r'
    using le [of r] that by simp
  have b: "length (skip_ws r) < n" if "length r < n" for r n
    using le [of r] that by simp
  have c: "2 * length (skip_ws r) < n" if "2 * length r < n" for r n
    using le [of r] that by simp
  show ?thesis
    by (relation "measure (\<lambda>x. case x of
            Inl s \<Rightarrow> 2 * length s
          | Inr (Inl s) \<Rightarrow> 2 * length s + 1
          | Inr (Inr s) \<Rightarrow> 2 * length s + 1)")
       (auto dest!: a intro!: b c)
qed

declare parse_value.simps [simp del] parse_elements.simps [simp del] parse_members.simps [simp del]

text \<open>\<open>JSON.parse(text)\<close>: one value, with white space around it and nothing else.\<close>

definition JSON_parse :: "jsstring \<Rightarrow> json option" where
  "JSON_parse s =
     (case parse_value (skip_ws s) of
        None \<Rightarrow> None
      | Some (v, r) \<Rightarrow> if skip_ws r = [] then Some v else None)"

subsection \<open>Property access, truthiness, string concatenation\<close>

text \<open>
  \<open>get_prop data k\<close> is \<open>data[k]\<close> for a parsed value other than \<open>null\<close> (on which the
  access throws): the last member named \<open>k\<close> of an object, \<open>undefined\<close> (\<open>None\<close>)
  otherwise; no key read by the code (\<open>error\<close>, \<open>content\<close>, \<open>done\<close>) is a property of
  a prototype. \<open>truthy\<close> is ToBoolean. \<open>ToString\<close> is the string that \<open>+=\<close> appends;
  \<open>None\<close> is the TypeError of an object whose own \<open>toString\<close> member hides the
  inherited method (a parsed member is never callable).
\<close>

definition get_prop :: "json \<Rightarrow> jsstring \<Rightarrow> json option" where
  "get_prop v k = (case v of JObj kvs \<Rightarrow> map_of (rev kvs) k | _ \<Rightarrow> None)"

fun truthy :: "(jsstring \<Rightarrow> jsstring) \<Rightarrow> json option \<Rightarrow> bool" where
  "truthy nts None = False"
| "truthy nts (Some JNull) = False"
| "truthy nts (Some (JBool b)) = b"
| "truthy nts (Some (JNum lit)) = (nts lit \<noteq> ascii ''0'')"
| "truthy nts (Some (JStr s)) = (s \<noteq> [])"
| "truthy nts (Some (JArr vs)) = True"
| "truthy nts (Some (JObj kvs)) = True"

fun join_comma :: "jsstring list \<Rightarrow> jsstring" where
  "join_comma [] = []"
| "join_comma [s] = s"
| "join_comma (s # t # ts) = s @ ascii '','' @ join_comma (t # ts)"

fun ToString :: "(jsstring \<Rightarrow> jsstring) \<Rightarrow> json \<Rightarrow> jsstring option" where
  "ToString nts JNull = Some (ascii ''null'')"
| "ToString nts (JBool b) = Some (if b then ascii ''true'' else ascii ''false'')"
| "ToString nts (JNum lit) = Some (nts lit)"
| "ToString nts (JStr s) = Some s"
| "ToString nts (JArr vs) =
     map_option join_comma (those (map (\<lambda>v. if v = JNull then Some [] else ToString nts v) vs))"
| "ToString nts (JObj kvs) =
     (if map_of kvs (ascii ''toString'') = None then Some (ascii ''[object Object]'') else None)"

section \<open>The frame decoder: StreamProcessor.processStream\<close>

text \<open>\<open>s.split('\n')\<close>: the segments between line feeds, never an empty array.\<close>

fun split_newline :: "jsstring \<Rightarrow> jsstring list" where
  "split_newline [] = [[]]"
| "split_newline (c # cs) =
     (if c = 0x0A then [] # split_newline cs
      else (case split_newline cs of [] \<Rightarrow> [[c]] | l # ls \<Rightarrow> (c # l) # ls))"

text \<open>
  The calls the decoder makes, in order: the three callbacks of the handler (an absent
  callback is a call that does nothing) and \<open>reader.releaseLock()\<close>. \<open>onChunk\<close> receives
  \<open>data.content\<close> as parsed; \<open>onError\<close> receives an Error, of which the trace keeps the
  message. A thrown value is an Error with its message, or something else.
\<close>

datatype event = OnChunk json | OnComplete jsstring | OnError jsstring | ReleaseLock

datatype thrown = ErrorObject jsstring | NotAnError

text \<open>
  The body of a response: the chunks its reader delivers, then end-of-data or a read
  that rejects.
\<close>

datatype read_end = EndOfData | ReadRejects thrown

type_synonym body_stream = "bytes list \<times> read_end"

record StreamProcessor =
  decoder :: TextDecoder
  buffer :: jsstring

definition new_StreamProcessor :: StreamProcessor where
  "new_StreamProcessor = \<lparr>decoder = new_TextDecoder, buffer = []\<rparr>"


text \<open>The local state of one call: \<open>fullText\<close> and the calls made so far.\<close>

type_synonym acc = "jsstring \<times> event list"

text \<open>
  \<open>if (data.content) { fullText += data.content; handler.onChunk?.(data.content); }\<close>;
  \<open>None\<close> when the concatenation throws.
\<close>

definition append_content :: "(jsstring \<Rightarrow> jsstring) \<Rightarrow> json option \<Rightarrow> acc \<Rightarrow> acc option" where
  "append_content nts c st =
     (if truthy nts c then
        (case c of
           None \<Rightarrow> Some st
         | Some v \<Rightarrow>
             (case ToString nts v of
                None \<Rightarrow> None
              | Some s \<Rightarrow> Some (fst st @ s, snd st @ [OnChunk v])))
      else Some st)"

text \<open>
  The body of \<open>for (const line of lines)\<close>. The result is the state and whether the
  function returned (\<open>True\<close>) or the loop goes on. Everything thrown inside the
  \<open>try\<close> of lines 36 to 55 is caught by its \<open>catch\<close>, which continues with the next
  line: the SyntaxError of \<open>JSON.parse\<close>, the TypeError of a property access on
  \<open>null\<close>, the TypeError of the concatenation, and the \<open>Error\<close> that line 40 throws
  for a frame with an \<open>error\<close>.
\<close>

definition process_line :: "(jsstring \<Rightarrow> jsstring) \<Rightarrow> jsstring \<Rightarrow> acc \<Rightarrow> acc \<times> bool" where
  "process_line nts line st =
     (if take 6 line = ascii ''data: '' then
        (case JSON_parse (drop 6 line) of
           None \<Rightarrow> (st, False)
         | Some data \<Rightarrow>
             if data = JNull then (st, False)
             else if truthy nts (get_prop data (ascii ''error'')) then (st, False)
             else
               (case append_content nts (get_prop data (ascii ''content'')) st of
                  None \<Rightarrow> (st, False)
                | Some st' \<Rightarrow>
                    if truthy nts (get_prop data (ascii ''done''))
                    then ((fst st', snd st' @ [OnComplete (fst st')]), True)
                    else (st', False)))
      else (st, False))"

fun process_lines :: "(jsstring \<Rightarrow> jsstring) \<Rightarrow> jsstring list \<Rightarrow> acc \<Rightarrow> acc \<times> bool" where
  "process_lines nts [] st = (st, False)"
| "process_lines nts (line # lines) st =
     (case process_line nts line st of
        (st', True) \<Rightarrow> (st', True)
      | (st', False) \<Rightarrow> process_lines nts lines st')"

text \<open>
  The \<open>while (true)\<close> loop over the chunks the reader delivers; it stops when the
  function returns from inside (\<open>True\<close>) or when the chunks are used up (\<open>False\<close>:
  the next read signals end-of-data or rejects).
\<close>

fun read_loop ::
  "(jsstring \<Rightarrow> jsstring) \<Rightarrow> bytes list \<Rightarrow> StreamProcessor \<Rightarrow> acc \<Rightarrow> (StreamProcessor \<times> acc) \<times> bool" where
  "read_loop nts [] sp st = ((sp, st), False)"
| "read_loop nts (v # rest) sp st =
     (case TextDecoder_decode (decoder sp) v True of
        (td, text) \<Rightarrow>
          (let lines = split_newline (buffer sp @ text);
               sp' = \<lparr>decoder = td, buffer = last lines\<rparr>
           in case process_lines nts (butlast lines) st of
                (st', True) \<Rightarrow> ((sp', st'), True)
              | (st', False) \<Rightarrow> read_loop nts rest sp' st'))"

text \<open>
  \<open>processStream(response, handler)\<close> on the processor \<open>sp\<close>: the processor afterwards,
  the calls made, and the error thrown (\<open>Inl\<close>) or the string returned (\<open>Inr\<close>).
  A response without a body (\<open>None\<close>) throws before the \<open>try\<close>: no callback, no
  \<open>releaseLock\<close>. A rejected read is the only failure that reaches the \<open>catch\<close> of
  line 62. The callbacks themselves do not throw.
\<close>

definition processStream ::
  "(jsstring \<Rightarrow> jsstring) \<Rightarrow> StreamProcessor \<Rightarrow> body_stream option
     \<Rightarrow> StreamProcessor \<times> event list \<times> (thrown + jsstring)" where
  "processStream nts sp body =
     (case body of
        None \<Rightarrow> (sp, [], Inl (ErrorObject (ascii ''Response body is null'')))
      | Some (chunks, ending) \<Rightarrow>
          (case read_loop nts chunks sp ([], []) of
             ((sp', (fullText, evs)), True) \<Rightarrow> (sp', evs @ [ReleaseLock], Inr fullText)
           | ((sp', (fullText, evs)), False) \<Rightarrow>
               (case ending of
                  EndOfData \<Rightarrow> (sp', evs @ [OnComplete fullText, ReleaseLock], Inr fullText)
                | ReadRejects e \<Rightarrow>
                    (let msg = (case e of ErrorObject m \<Rightarrow> m
                                        | NotAnError \<Rightarrow> ascii ''Unknown streaming error'')
                     in (sp', evs @ [OnError msg, ReleaseLock], Inl (ErrorObject msg))))))"

section \<open>The consumer decode loop: useGenAI.chatStream\<close>

datatype ui_event =
    SetIsStreaming bool
  | SetIsLoading bool
  | SetError "jsstring option"
  | SetResponse jsstring
  | OnStreamChunk json
  | OnStreamComplete jsstring
  | OnSuccess jsstring
  | OnErrorMessage jsstring

record fetch_response =
  ok :: bool
  status :: nat
  body :: "body_stream option"

type_synonym chat_acc = "jsstring \<times> ui_event list"

fun decimal :: "nat \<Rightarrow> jsstring" where
  "decimal n = (if n < 10 then [of_nat (0x30 + n)] else decimal (n div 10) @ [of_nat (0x30 + n mod 10)])"

declare decimal.simps [simp del]

definition chat_append_content :: "(jsstring \<Rightarrow> jsstring) \<Rightarrow> json option \<Rightarrow> chat_acc \<Rightarrow> chat_acc option" where
  "chat_append_content nts c st =
     (if truthy nts c then
        (case c of
           None \<Rightarrow> Some st
         | Some v \<Rightarrow>
             (case ToString nts v of
                None \<Rightarrow> None
              | Some s \<Rightarrow> Some (fst st @ s, snd st @ [SetResponse (fst st @ s), OnStreamChunk v])))
      else Some st)"

definition chat_line :: "(jsstring \<Rightarrow> jsstring) \<Rightarrow> jsstring \<Rightarrow> chat_acc \<Rightarrow> chat_acc \<times> bool" where
  "chat_line nts line st =
     (if take 6 line = ascii ''data: '' then
        (case JSON_parse (drop 6 line) of
           None \<Rightarrow> (st, False)
         | Some data \<Rightarrow>
             if data = JNull then (st, False)
             else if truthy nts (get_prop data (ascii ''error'')) then (st, False)
             else
               (case chat_append_content nts (get_prop data (ascii ''content'')) st of
                  None \<Rightarrow> (st, False)
                | Some st' \<Rightarrow>
                    if truthy nts (get_prop data (ascii ''done''))
                    then ((fst st', snd st' @ [OnStreamComplete (fst st'), OnSuccess (fst st')]), True)
                    else (st', False)))
      else (st, False))"

fun chat_lines :: "(jsstring \<Rightarrow> jsstring) \<Rightarrow> jsstring list \<Rightarrow> chat_acc \<Rightarrow> chat_acc \<times> bool" where
  "chat_lines nts [] st = (st, False)"
| "chat_lines nts (line # lines) st =
     (case chat_line nts line st of
        (st', True) \<Rightarrow> (st', True)
      | (st', False) \<Rightarrow> chat_lines nts lines st')"

text \<open>
  The loop of lines 115 to 149: each chunk is decoded by \<open>decoder.decode(value)\<close>, a
  non-streaming call, and all the segments of the decoded chunk are processed; nothing
  is kept from one chunk to the next but \<open>fullResponse\<close>.
\<close>

fun chat_loop ::
  "(jsstring \<Rightarrow> jsstring) \<Rightarrow> bytes list \<Rightarrow> TextDecoder \<Rightarrow> chat_acc \<Rightarrow> chat_acc \<times> bool" where
  "chat_loop nts [] td st = (st, False)"
| "chat_loop nts (v # rest) td st =
     (case TextDecoder_decode td v False of
        (td', chunk) \<Rightarrow>
          (case chat_lines nts (split_newline chunk) st of
             (st', True) \<Rightarrow> (st', True)
           | (st', False) \<Rightarrow> chat_loop nts rest td' st'))"

text \<open>
  \<open>chatStream(request)\<close>, given what \<open>fetch\<close> produced (a rejection or a response): the
  state updates and callbacks in order, and the value thrown or returned.
\<close>

definition chat_failed :: "ui_event list \<Rightarrow> thrown \<Rightarrow> ui_event list \<times> (thrown + jsstring)" where
  "chat_failed evs err =
     (let msg = (case err of ErrorObject m \<Rightarrow> m | NotAnError \<Rightarrow> ascii ''An error occurred'')
      in (evs @ [SetError (Some msg), OnErrorMessage msg, SetIsLoading False, SetIsStreaming False],
          Inl err))"

definition chatStream ::
  "(jsstring \<Rightarrow> jsstring) \<Rightarrow> thrown + fetch_response \<Rightarrow> ui_event list \<times> (thrown + jsstring)" where
  "chatStream nts fetched =
     (let evs0 = [SetIsStreaming True, SetIsLoading True, SetError None, SetResponse []] in
      case fetched of
        Inl err \<Rightarrow> chat_failed evs0 err
      | Inr response \<Rightarrow>
          if \<not> ok response then
            chat_failed evs0 (ErrorObject (ascii ''HTTP error! status: '' @ decimal (status response)))
          else
            (case body response of
               None \<Rightarrow> chat_failed evs0 (ErrorObject (ascii ''No reader available''))
             | Some (chunks, ending) \<Rightarrow>
                 (case chat_loop nts chunks new_TextDecoder ([], evs0) of
                    ((fullResponse, evs), True) \<Rightarrow>
                      (evs @ [SetIsLoading False, SetIsStreaming False], Inr fullResponse)
                  | ((fullResponse, evs), False) \<Rightarrow>
                      (case ending of
                         EndOfData \<Rightarrow>
                           (evs @ [SetIsLoading False, SetIsStreaming False], Inr fullResponse)
                       | ReadRejects err \<Rightarrow> chat_failed evs err))))"

section \<open>The frame encoder: createStreamResponse\<close>

text \<open>
  A response unit of the generation source, every link of
  \<open>candidates?.[0]?.content?.parts?.[0]?.text\<close> optional.
\<close>

datatype part = Part (part_text: "jsstring option")
datatype content = Content (parts: "part list option")
datatype candidate = Candidate (content: "content option")
datatype response_unit = ResponseUnit (candidates: "candidate list option")

definition extract_text :: "response_unit \<Rightarrow> jsstring option" where
  "extract_text chunk =
     (case candidates chunk of
        None \<Rightarrow> None
      | Some [] \<Rightarrow> None
      | Some (c # _) \<Rightarrow>
          (case content c of
             None \<Rightarrow> None
           | Some ct \<Rightarrow>
               (case parts ct of
                  None \<Rightarrow> None
                | Some [] \<Rightarrow> None
                | Some (p # _) \<Rightarrow> part_text p)))"

text \<open>
  What the stream's controller receives. The generator is the list of units it yields
  and how it ends: it returns, or it throws while the next unit is pulled. The consumer
  does not cancel the stream: the controller accepts every \<open>enqueue\<close>.
\<close>

datatype controller_event = Enqueue bytes | Close

datatype generator_end = Returns | Throws thrown

definition frame_line :: "(jsstring \<times> jsval) list \<Rightarrow> jsstring" where
  "frame_line props = ascii ''data: '' @ JSON_stringify props @ [0x0A, 0x0A]"

text \<open>
  The object literals of lines 88 to 91, 98 to 101 and 106 to 109; the message of the
  error frame is \<open>error instanceof Error ? error.message : 'Streaming failed'\<close>.
\<close>

definition content_frame :: "jsstring \<Rightarrow> (jsstring \<times> jsval) list" where
  "content_frame t = [(ascii ''content'', VStr t), (ascii ''done'', VBool False)]"

definition done_frame :: "(jsstring \<times> jsval) list" where
  "done_frame = [(ascii ''content'', VStr []), (ascii ''done'', VBool True)]"

definition error_frame :: "thrown \<Rightarrow> (jsstring \<times> jsval) list" where
  "error_frame e =
     [(ascii ''error'', VStr (case e of ErrorObject m \<Rightarrow> m | NotAnError \<Rightarrow> ascii ''Streaming failed'')),
      (ascii ''done'', VBool True)]"

text \<open>The \<open>for await\<close> loop: one frame for a unit with a non-empty text, nothing otherwise.\<close>

fun encode_units :: "response_unit list \<Rightarrow> controller_event list" where
  "encode_units [] = []"
| "encode_units (chunk # rest) =
     (case extract_text chunk of
        None \<Rightarrow> encode_units rest
      | Some t \<Rightarrow>
          if t \<noteq> [] then Enqueue (TextEncoder_encode (frame_line (content_frame t))) # encode_units rest
          else encode_units rest)"

definition createStreamResponse :: "response_unit list \<Rightarrow> generator_end \<Rightarrow> controller_event list" where
  "createStreamResponse units ending =
     encode_units units @
     (case ending of
        Returns \<Rightarrow> [Enqueue (TextEncoder_encode (frame_line done_frame)), Close]
      | Throws e \<Rightarrow> [Enqueue (TextEncoder_encode (frame_line (error_frame e))), Close])"

text \<open>The byte arrays the transport carries: what was enqueued, in order.\<close>

fun enqueued :: "controller_event list \<Rightarrow> bytes list" where
  "enqueued [] = []"
| "enqueued (Enqueue b # evs) = b # enqueued evs"
| "enqueued (Close # evs) = enqueued evs"

section \<open>Notions used to state the properties\<close>

text \<open>Bytes written as ASCII text, for examples.\<close>

definition ascii_bytes :: "string \<Rightarrow> bytes" where
  "ascii_bytes s = map of_char s"

text \<open>
  The deltas of a source: the non-empty texts its units carry, in order. The frames the
  encoder writes for a source, and the terminal one among them.
\<close>

fun deltas :: "response_unit list \<Rightarrow> jsstring list" where
  "deltas [] = []"
| "deltas (chunk # rest) =
     (case extract_text chunk of
        None \<Rightarrow> deltas rest
      | Some t \<Rightarrow> if t \<noteq> [] then t # deltas rest else deltas rest)"

definition text_unit :: "jsstring \<Rightarrow> response_unit" where
  "text_unit t = ResponseUnit (Some [Candidate (Some (Content (Some [Part (Some t)])))])"

definition terminal_frame :: "generator_end \<Rightarrow> (jsstring \<times> jsval) list" where
  "terminal_frame ending = (case ending of Returns \<Rightarrow> done_frame | Throws e \<Rightarrow> error_frame e)"

definition frames_of :: "response_unit list \<Rightarrow> generator_end \<Rightarrow> (jsstring \<times> jsval) list list" where
  "frames_of units ending = map content_frame (deltas units) @ [terminal_frame ending]"

definition is_terminal :: "(jsstring \<times> jsval) list \<Rightarrow> bool" where
  "is_terminal props \<longleftrightarrow> map_of props (ascii ''done'') = Some (VBool True)"

definition frame_text :: "(jsstring \<times> jsval) list \<Rightarrow> jsstring" where
  "frame_text props = ascii ''data: '' @ JSON_stringify props"

fun json_of :: "jsval \<Rightarrow> json" where
  "json_of (VStr s) = JStr s"
| "json_of (VBool b) = JBool b"

text \<open>
  The text a new streaming decoder produces for a byte sequence, the complete lines of
  a text (all segments but the last), and how a call ends once its lines are processed:
  \<open>outcome\<close> repeats the last lines of \<open>processStream\<close> (60 to 68).
\<close>

definition decode_text :: "bytes \<Rightarrow> jsstring" where
  "decode_text bs = snd (TextDecoder_decode new_TextDecoder bs True)"

definition complete_lines :: "jsstring \<Rightarrow> jsstring list" where
  "complete_lines t = butlast (split_newline t)"

definition outcome :: "read_end \<Rightarrow> acc \<times> bool \<Rightarrow> event list \<times> (thrown + jsstring)" where
  "outcome ending r =
     (case r of
        ((fullText, evs), True) \<Rightarrow> (evs @ [ReleaseLock], Inr fullText)
      | ((fullText, evs), False) \<Rightarrow>
          (case ending of
             EndOfData \<Rightarrow> (evs @ [OnComplete fullText, ReleaseLock], Inr fullText)
           | ReadRejects e \<Rightarrow>
               (let msg = (case e of ErrorObject m \<Rightarrow> m
                                   | NotAnError \<Rightarrow> ascii ''Unknown streaming error'')
                in (evs @ [OnError msg, ReleaseLock], Inl (ErrorObject msg)))))"

text \<open>A line that is recognised as a framed event and whose payload is not JSON.\<close>

definition malformed :: "jsstring \<Rightarrow> bool" where
  "malformed line \<longleftrightarrow> take 6 line = ascii ''data: '' \<and> JSON_parse (drop 6 line) = None"

text \<open>
  The accumulator agrees with the calls made: only \<open>onChunk\<close> calls so far, and
  \<open>fullText\<close> is the concatenation of the strings appended for them.
\<close>

fun is_chunk :: "event \<Rightarrow> bool" where
  "is_chunk (OnChunk v) = True"
| "is_chunk e = False"

fun chunk_text :: "(jsstring \<Rightarrow> jsstring) \<Rightarrow> event \<Rightarrow> jsstring" where
  "chunk_text nts (OnChunk v) = (case ToString nts v of None \<Rightarrow> [] | Some s \<Rightarrow> s)"
| "chunk_text nts e = []"

definition accumulated :: "(jsstring \<Rightarrow> jsstring) \<Rightarrow> acc \<Rightarrow> bool" where
  "accumulated nts st \<longleftrightarrow> list_all is_chunk (snd st) \<and> fst st = concat (map (chunk_text nts) (snd st))"

text \<open>
  Well-formed text: \<open>scalars\<close> holds of code points that are Unicode scalar values;
  a \<open>safe\<close> string has no line feed and keeps a text well formed when put in front
  of it.
\<close>

definition is_lead :: "16 word \<Rightarrow> bool" where
  "is_lead u \<longleftrightarrow> 0xD800 \<le> unat u \<and> unat u \<le> 0xDBFF"

definition scalars :: "nat list \<Rightarrow> bool" where
  "scalars cs \<longleftrightarrow> list_all (\<lambda>c. c < 0x110000 \<and> \<not> is_surrogate c) cs"

definition plain_ascii :: "jsstring \<Rightarrow> bool" where
  "plain_ascii a \<longleftrightarrow> list_all (\<lambda>u. unat u < 0x80 \<and> unat u \<noteq> 0x0A) a"

definition safe :: "jsstring \<Rightarrow> bool" where
  "safe q \<longleftrightarrow> 0x0A \<notin> set q \<and> (\<forall>s. scalars (code_points s) \<longrightarrow> scalars (code_points (q @ s)))"

definition quoted_body :: "jsstring \<Rightarrow> jsstring" where
  "quoted_body s = concat (map quote_code_point (code_points s)) @ [0x22]"

section \<open>Lemmas\<close>

subsection \<open>Lines, chunks and the decoder state\<close>

lemma ascii_Nil [simp]: "ascii [] = []"
  by (simp add: ascii_def)

lemma ascii_Cons [simp]: "ascii (c # cs) = of_char c # ascii cs"
  by (simp add: ascii_def)

lemma split_newline_not_Nil [simp]: "split_newline s \<noteq> []"
  by (induction s) (auto split: list.splits)

lemma split_newline_no_nl: "0x0A \<notin> set s \<Longrightarrow> split_newline s = [s]"
  by (induction s) auto

lemma last_split_newline_no_nl: "0x0A \<notin> set (last (split_newline s))"
proof (induction s)
  case Nil
  then show ?case by simp
next
  case (Cons c cs)
  then show ?case
    by (cases "split_newline cs") (auto split: if_splits)
qed

lemma split_newline_append:
  "split_newline (a @ b) = butlast (split_newline a) @ split_newline (last (split_newline a) @ b)"
proof (induction a)
  case Nil
  then show ?case by simp
next
  case (Cons c cs)
  obtain l ls where s: "split_newline cs = l # ls"
    by (cases "split_newline cs") auto
  show ?case
  proof (cases "c = 0x0A")
    case True
    then show ?thesis using Cons by simp
  next
    case False
    show ?thesis
    proof (cases ls)
      case Nil
      with False s Cons show ?thesis by simp
    next
      case (Cons m ms)
      with False s Cons.IH show ?thesis by simp
    qed
  qed
qed

lemma process_lines_append:
  "process_lines nts (a @ b) st =
     (case process_lines nts a st of
        (st', True) \<Rightarrow> (st', True)
      | (st', False) \<Rightarrow> process_lines nts b st')"
  by (induction a arbitrary: st) (auto split: prod.splits bool.splits)

lemma utf8_run_append:
  "utf8_run d (a @ b) =
     (case utf8_run d a of (d1, out1) \<Rightarrow>
      (case utf8_run d1 b of (d2, out2) \<Rightarrow> (d2, out1 @ out2)))"
  by (induction a arbitrary: d) (auto split: prod.splits)

lemma serialize_append:
  "serialize seen (a @ b) =
     (case serialize seen a of (seen1, out1) \<Rightarrow>
      (case serialize seen1 b of (seen2, out2) \<Rightarrow> (seen2, out1 @ out2)))"
  by (induction a arbitrary: seen) (auto split: prod.splits)

lemma decode_stream_append:
  "TextDecoder_decode td (a @ b) True =
     (case TextDecoder_decode td a True of (td1, s1) \<Rightarrow>
      (case TextDecoder_decode td1 b True of (td2, s2) \<Rightarrow> (td2, s1 @ s2)))"
proof -
  let ?td0 = "if do_not_flush td then td else new_TextDecoder"
  obtain d1 o1 where r1: "utf8_run (utf8_state ?td0) a = (d1, o1)"
    by (cases "utf8_run (utf8_state ?td0) a")
  obtain d2 o2 where r2: "utf8_run d1 b = (d2, o2)"
    by (cases "utf8_run d1 b")
  obtain s1 t1 where z1: "serialize (BOM_seen ?td0) o1 = (s1, t1)"
    by (cases "serialize (BOM_seen ?td0) o1")
  obtain s2 t2 where z2: "serialize s1 o2 = (s2, t2)"
    by (cases "serialize s1 o2")
  show ?thesis
    using r1 r2 z1 z2
    by (simp add: TextDecoder_decode_def Let_def utf8_run_append serialize_append)
qed

lemma decode_stream_Nil:
  "snd (TextDecoder_decode td [] True) = []"
  by (simp add: TextDecoder_decode_def Let_def)

lemma read_loop_lines:
  "0x0A \<notin> set (buffer sp) \<Longrightarrow>
   (case read_loop nts chunks sp st of ((sp', st'), fin) \<Rightarrow> (st', fin)) =
     process_lines nts
       (butlast (split_newline (buffer sp @ snd (TextDecoder_decode (decoder sp) (concat chunks) True)))) st"
proof (induction chunks arbitrary: sp st)
  case Nil
  then show ?case by (simp add: decode_stream_Nil split_newline_no_nl)
next
  case (Cons v rest)
  obtain td t1 where d: "TextDecoder_decode (decoder sp) v True = (td, t1)"
    by (cases "TextDecoder_decode (decoder sp) v True")
  obtain td2 t2 where d2: "TextDecoder_decode td (concat rest) True = (td2, t2)"
    by (cases "TextDecoder_decode td (concat rest) True")
  let ?lines = "split_newline (buffer sp @ t1)"
  let ?sp = "\<lparr>decoder = td, buffer = last ?lines\<rparr>"
  have nl: "0x0A \<notin> set (buffer ?sp)"
    by (simp add: last_split_newline_no_nl)
  have split: "butlast (split_newline (buffer sp @ t1 @ t2)) =
      butlast ?lines @ butlast (split_newline (last ?lines @ t2))"
    using split_newline_append [of "buffer sp @ t1" t2]
    by (simp add: butlast_append)
  obtain st1 fin1 where p: "process_lines nts (butlast ?lines) st = (st1, fin1)"
    by (cases "process_lines nts (butlast ?lines) st")
  show ?case
  proof (cases fin1)
    case True
    with d d2 p split show ?thesis
      by (simp add: decode_stream_append process_lines_append Let_def)
  next
    case False
    have "(case read_loop nts rest ?sp st1 of ((sp', st'), fin) \<Rightarrow> (st', fin)) =
        process_lines nts (butlast (split_newline (last ?lines @ t2))) st1"
      using Cons.IH [OF nl, of st1] d2 by simp
    with False d d2 p split show ?thesis
      by (simp add: decode_stream_append process_lines_append Let_def)
  qed
qed

subsection \<open>UTF-8: decoding what was encoded\<close>

lemma unat_of_nat_byte: "n < 256 \<Longrightarrow> unat (of_nat n :: 8 word) = n"
  by (simp add: unat_of_nat)

lemma unat_of_nat_unit: "n < 65536 \<Longrightarrow> unat (of_nat n :: 16 word) = n"
  by (simp add: unat_of_nat)

lemma split3_nat: "((c div 0x1000) * 0x40 + (c div 0x40 mod 0x40)) * 0x40 + c mod 0x40 = (c::nat)"
proof -
  have d: "c div 0x1000 = c div 0x40 div 0x40"
    by (simp add: div_mult2_eq [symmetric])
  show ?thesis unfolding d by (simp add: algebra_simps)
qed

lemma split4_nat:
  "(((c div 0x40000) * 0x40 + (c div 0x1000 mod 0x40)) * 0x40 + (c div 0x40 mod 0x40)) * 0x40
     + c mod 0x40 = (c::nat)"
proof -
  have d: "c div 0x1000 = c div 0x40 div 0x40" "c div 0x40000 = c div 0x40 div 0x40 div 0x40"
    by (simp_all add: div_mult2_eq [symmetric])
  show ?thesis unfolding d by (simp add: algebra_simps)
qed

lemma second_of_E0: "0x800 \<le> c \<Longrightarrow> c div 0x1000 = 0 \<Longrightarrow> 32 \<le> c div 0x40 mod 0x40" for c :: nat
proof -
  assume a: "0x800 \<le> c" "c div 0x1000 = 0"
  have d: "c div 0x1000 = c div 0x40 div 0x40"
    by (simp add: div_mult2_eq [symmetric])
  have "32 \<le> c div 0x40" using a(1) by simp
  moreover have "c div 0x40 = c div 0x40 mod 0x40"
    using a(2) d div_mult_mod_eq [of "c div 0x40" "0x40"] by simp
  ultimately show ?thesis by linarith
qed

lemma second_of_ED: "c div 0x1000 = 13 \<Longrightarrow> c < 0xD800 \<Longrightarrow> c div 0x40 mod 0x40 \<le> 31" for c :: nat
proof -
  assume a: "c div 0x1000 = 13" "c < 0xD800"
  have d: "c div 0x1000 = c div 0x40 div 0x40"
    by (simp add: div_mult2_eq [symmetric])
  have "c div 0x40 < 864" using a(2) by simp
  moreover have "c div 0x40 = 13 * 0x40 + c div 0x40 mod 0x40"
    using a(1) d div_mult_mod_eq [of "c div 0x40" "0x40"] by simp
  ultimately show ?thesis by linarith
qed

lemma second_of_F0: "0x10000 \<le> c \<Longrightarrow> c div 0x40000 = 0 \<Longrightarrow> 16 \<le> c div 0x1000 mod 0x40" for c :: nat
proof -
  assume a: "0x10000 \<le> c" "c div 0x40000 = 0"
  have d: "c div 0x40000 = c div 0x1000 div 0x40"
    by (simp add: div_mult2_eq [symmetric])
  have "16 \<le> c div 0x1000" using a(1) by simp
  moreover have "c div 0x1000 = c div 0x1000 mod 0x40"
    using a(2) d div_mult_mod_eq [of "c div 0x1000" "0x40"] by simp
  ultimately show ?thesis by linarith
qed

lemma second_of_F4: "c div 0x40000 = 4 \<Longrightarrow> c < 0x110000 \<Longrightarrow> c div 0x1000 mod 0x40 \<le> 15" for c :: nat
proof -
  assume a: "c div 0x40000 = 4" "c < 0x110000"
  have d: "c div 0x40000 = c div 0x1000 div 0x40"
    by (simp add: div_mult2_eq [symmetric])
  have "c div 0x1000 < 272" using a(2) by simp
  moreover have "c div 0x1000 = 4 * 0x40 + c div 0x1000 mod 0x40"
    using a(1) d div_mult_mod_eq [of "c div 0x1000" "0x40"] by simp
  ultimately show ?thesis by linarith
qed

lemma utf8_run_Cons_nat:
  "unat b = n \<Longrightarrow> utf8_run d (b # bs) =
     (case utf8_byte d n of (d1, out1) \<Rightarrow>
      (case utf8_run d1 bs of (d2, out2) \<Rightarrow> (d2, out1 @ out2)))"
  by auto

lemma utf8_run_encode1:
  assumes "c < 0x80"
  shows "utf8_run utf8_init (utf8_encode c @ bs) =
     (case utf8_run utf8_init bs of (d, out) \<Rightarrow> (d, c # out))"
proof -
  have e: "unat (of_nat c :: 8 word) = c"
    using assms by (simp add: unat_of_nat_byte)
  have s: "utf8_byte utf8_init c = (utf8_init, [c])"
    using assms by (simp add: utf8_byte_def utf8_lead_def utf8_init_def)
  show ?thesis
    using assms
    by (simp only: utf8_encode_def if_True append_Cons append_Nil utf8_run_Cons_nat [OF e] s prod.case)
qed

lemma utf8_run_encode2:
  assumes "0x80 \<le> c" "c < 0x800"
  shows "utf8_run utf8_init (utf8_encode c @ bs) =
     (case utf8_run utf8_init bs of (d, out) \<Rightarrow> (d, c # out))"
proof -
  define b1 where "b1 = 0xC0 + c div 0x40"
  define b2 where "b2 = 0x80 + c mod 0x40"
  have r1: "b1 < 256" "0xC2 \<le> b1" "b1 \<le> 0xDF"
    using assms by (auto simp: b1_def)
  have r2: "b2 < 256" "0x80 \<le> b2" "b2 \<le> 0xBF"
    by (auto simp: b2_def)
  have v: "(b1 - 0xC0) * 0x40 + (b2 - 0x80) = c"
    by (simp add: b1_def b2_def)
  have e1: "unat (of_nat b1 :: 8 word) = b1" and e2: "unat (of_nat b2 :: 8 word) = b2"
    using r1 r2 by (simp_all add: unat_of_nat_byte)
  let ?d1 = "utf8_init\<lparr>bytes_needed := 1, code_point := b1 - 0xC0\<rparr>"
  have s1: "utf8_byte utf8_init b1 = (?d1, [])"
    using r1 by (simp add: utf8_byte_def utf8_lead_def utf8_init_def)
  have s2: "utf8_byte ?d1 b2 = (utf8_init, [c])"
    using r2 v by (simp add: utf8_byte_def utf8_init_def)
  have enc: "utf8_encode c = [of_nat b1, of_nat b2]"
    using assms by (simp add: utf8_encode_def b1_def b2_def)
  show ?thesis
    unfolding enc
    by (simp only: append_Cons append_Nil utf8_run_Cons_nat [OF e1] utf8_run_Cons_nat [OF e2] s1 s2 prod.case)
       (simp split: prod.splits)
qed

lemma utf8_run_encode3:
  assumes "0x800 \<le> c" "c < 0x10000" "\<not> is_surrogate c"
  shows "utf8_run utf8_init (utf8_encode c @ bs) =
     (case utf8_run utf8_init bs of (d, out) \<Rightarrow> (d, c # out))"
proof -
  define b1 where "b1 = 0xE0 + c div 0x1000"
  define b2 where "b2 = 0x80 + c div 0x40 mod 0x40"
  define b3 where "b3 = 0x80 + c mod 0x40"
  define lo where "lo = (if b1 = 0xE0 then 0xA0 else (0x80::nat))"
  define hi where "hi = (if b1 = 0xED then 0x9F else (0xBF::nat))"
  have r1: "b1 < 256" "0xE0 \<le> b1" "b1 \<le> 0xEF"
    using assms by (auto simp: b1_def)
  have r2: "b2 < 256" "0x80 \<le> b2" "b2 \<le> 0xBF"
    by (auto simp: b2_def)
  have r3: "b3 < 256" "0x80 \<le> b3" "b3 \<le> 0xBF"
    by (auto simp: b3_def)
  have lo: "lo \<le> b2"
    using assms(1) second_of_E0 [of c] by (auto simp: lo_def b1_def b2_def)
  have hi: "b2 \<le> hi"
    using assms r2 second_of_ED [of c] by (auto simp: hi_def b1_def b2_def is_surrogate_def)
  have v: "((b1 - 0xE0) * 0x40 + (b2 - 0x80)) * 0x40 + (b3 - 0x80) = c"
    using split3_nat [of c] by (simp add: b1_def b2_def b3_def)
  have e1: "unat (of_nat b1 :: 8 word) = b1" and e2: "unat (of_nat b2 :: 8 word) = b2"
    and e3: "unat (of_nat b3 :: 8 word) = b3"
    using r1 r2 r3 by (simp_all add: unat_of_nat_byte)
  let ?d1 = "utf8_init\<lparr>lower_boundary := lo, upper_boundary := hi,
      bytes_needed := 2, code_point := b1 - 0xE0\<rparr>"
  let ?d2 = "?d1\<lparr>lower_boundary := 0x80, upper_boundary := 0xBF,
      code_point := (b1 - 0xE0) * 0x40 + (b2 - 0x80), bytes_seen := 1\<rparr>"
  have s1: "utf8_byte utf8_init b1 = (?d1, [])"
    using r1 by (simp add: utf8_byte_def utf8_lead_def utf8_init_def lo_def hi_def)
  have s2: "utf8_byte ?d1 b2 = (?d2, [])"
    using lo hi by (simp add: utf8_byte_def utf8_init_def)
  have s3: "utf8_byte ?d2 b3 = (utf8_init, [c])"
    using r3 v by (simp add: utf8_byte_def utf8_init_def)
  have enc: "utf8_encode c = [of_nat b1, of_nat b2, of_nat b3]"
    using assms by (simp add: utf8_encode_def b1_def b2_def b3_def)
  show ?thesis
    unfolding enc
    by (simp only: append_Cons append_Nil utf8_run_Cons_nat [OF e1] utf8_run_Cons_nat [OF e2]
          utf8_run_Cons_nat [OF e3] s1 s2 s3 prod.case)
       (simp split: prod.splits)
qed

lemma utf8_run_encode4:
  assumes "0x10000 \<le> c" "c < 0x110000"
  shows "utf8_run utf8_init (utf8_encode c @ bs) =
     (case utf8_run utf8_init bs of (d, out) \<Rightarrow> (d, c # out))"
proof -
  define b1 where "b1 = 0xF0 + c div 0x40000"
  define b2 where "b2 = 0x80 + c div 0x1000 mod 0x40"
  define b3 where "b3 = 0x80 + c div 0x40 mod 0x40"
  define b4 where "b4 = 0x80 + c mod 0x40"
  define lo where "lo = (if b1 = 0xF0 then 0x90 else (0x80::nat))"
  define hi where "hi = (if b1 = 0xF4 then 0x8F else (0xBF::nat))"
  have r1: "b1 < 256" "0xF0 \<le> b1" "b1 \<le> 0xF4"
    using assms by (auto simp: b1_def)
  have r2: "b2 < 256" "0x80 \<le> b2" "b2 \<le> 0xBF"
    by (auto simp: b2_def)
  have r3: "b3 < 256" "0x80 \<le> b3" "b3 \<le> 0xBF"
    by (auto simp: b3_def)
  have r4: "b4 < 256" "0x80 \<le> b4" "b4 \<le> 0xBF"
    by (auto simp: b4_def)
  have lo: "lo \<le> b2"
    using assms(1) second_of_F0 [of c] by (auto simp: lo_def b1_def b2_def)
  have hi: "b2 \<le> hi"
    using assms r2 second_of_F4 [of c] by (auto simp: hi_def b1_def b2_def)
  have v: "(((b1 - 0xF0) * 0x40 + (b2 - 0x80)) * 0x40 + (b3 - 0x80)) * 0x40 + (b4 - 0x80) = c"
    using split4_nat [of c] by (simp add: b1_def b2_def b3_def b4_def)
  have e1: "unat (of_nat b1 :: 8 word) = b1" and e2: "unat (of_nat b2 :: 8 word) = b2"
    and e3: "unat (of_nat b3 :: 8 word) = b3" and e4: "unat (of_nat b4 :: 8 word) = b4"
    using r1 r2 r3 r4 by (simp_all add: unat_of_nat_byte)
  let ?d1 = "utf8_init\<lparr>lower_boundary := lo, upper_boundary := hi,
      bytes_needed := 3, code_point := b1 - 0xF0\<rparr>"
  let ?d2 = "?d1\<lparr>lower_boundary := 0x80, upper_boundary := 0xBF,
      code_point := (b1 - 0xF0) * 0x40 + (b2 - 0x80), bytes_seen := 1\<rparr>"
  let ?d3 = "?d2\<lparr>lower_boundary := 0x80, upper_boundary := 0xBF,
      code_point := ((b1 - 0xF0) * 0x40 + (b2 - 0x80)) * 0x40 + (b3 - 0x80), bytes_seen := 2\<rparr>"
  have s1: "utf8_byte utf8_init b1 = (?d1, [])"
    using r1 by (simp add: utf8_byte_def utf8_lead_def utf8_init_def lo_def hi_def)
  have s2: "utf8_byte ?d1 b2 = (?d2, [])"
    using lo hi by (simp add: utf8_byte_def utf8_init_def)
  have s3: "utf8_byte ?d2 b3 = (?d3, [])"
    using r3 by (simp add: utf8_byte_def utf8_init_def)
  have s4: "utf8_byte ?d3 b4 = (utf8_init, [c])"
    using r4 v by (simp add: utf8_byte_def utf8_init_def)
  have enc: "utf8_encode c = [of_nat b1, of_nat b2, of_nat b3, of_nat b4]"
    using assms by (simp add: utf8_encode_def b1_def b2_def b3_def b4_def)
  show ?thesis
    unfolding enc
    by (simp only: append_Cons append_Nil utf8_run_Cons_nat [OF e1] utf8_run_Cons_nat [OF e2]
          utf8_run_Cons_nat [OF e3] utf8_run_Cons_nat [OF e4] s1 s2 s3 s4 prod.case)
       (simp split: prod.splits)
qed

lemma utf8_run_encode:
  assumes "c < 0x110000" "\<not> is_surrogate c"
  shows "utf8_run utf8_init (utf8_encode c @ bs) =
     (case utf8_run utf8_init bs of (d, out) \<Rightarrow> (d, c # out))"
  using assms utf8_run_encode1 [of c bs] utf8_run_encode2 [of c bs] utf8_run_encode3 [of c bs]
    utf8_run_encode4 [of c bs]
  by (cases "c < 0x80"; cases "c < 0x800"; cases "c < 0x10000") simp_all

subsection \<open>UTF-16 code units and code points\<close>

lemma unat_unit_bound: "unat (u :: 16 word) < 65536"
  using unsigned_less [of u, where ?'a = nat] by simp

lemma code_points_bound: "c \<in> set (code_points s) \<Longrightarrow> c < 0x110000"
proof (induction s arbitrary: c rule: code_points.induct)
  case 1
  then show ?case by simp
next
  case (2 u)
  have "unat u < 65536" by (rule unat_unit_bound)
  with 2 show ?case by simp
next
  case (3 u1 u2 us)
  have "unat u1 < 65536" by (rule unat_unit_bound)
  with 3 show ?case by (auto split: if_splits)
qed

lemma utf16_encode_pair:
  assumes "0xD800 \<le> unat u1" "unat u1 \<le> 0xDBFF" "0xDC00 \<le> unat u2" "unat u2 \<le> 0xDFFF"
  shows "utf16_encode (0x10000 + (unat u1 - 0xD800) * 0x400 + (unat u2 - 0xDC00)) = [u1, u2]"
proof -
  define a where "a = unat u1 - 0xD800"
  define b where "b = unat u2 - 0xDC00"
  have b: "b < 0x400" using assms by (simp add: b_def)
  have d: "(a * 0x400 + b) div 0x400 = a" using b by simp
  have m: "(a * 0x400 + b) mod 0x400 = b" using b by simp
  have r1: "0xD800 + a = unat u1" using assms by (simp add: a_def)
  have r2: "0xDC00 + b = unat u2" using assms by (simp add: b_def)
  have "utf16_encode (0x10000 + a * 0x400 + b) = [of_nat (0xD800 + a), of_nat (0xDC00 + b)]"
    using d m by (simp add: utf16_encode_def add.assoc)
  then show ?thesis
    unfolding r1 r2 by (simp add: a_def b_def)
qed

lemma utf16_code_points: "concat (map utf16_encode (code_points s)) = s"
proof (induction s rule: code_points.induct)
  case 1
  then show ?case by simp
next
  case (2 u)
  have "unat u < 65536" by (rule unat_unit_bound)
  then show ?case by (simp add: utf16_encode_def)
next
  case (3 u1 u2 us)
  have lt: "unat u1 < 65536" by (rule unat_unit_bound)
  show ?case
  proof (cases "0xD800 \<le> unat u1 \<and> unat u1 \<le> 0xDBFF \<and> 0xDC00 \<le> unat u2 \<and> unat u2 \<le> 0xDFFF")
    case True
    then have cp: "code_points (u1 # u2 # us) =
        (0x10000 + (unat u1 - 0xD800) * 0x400 + (unat u2 - 0xDC00)) # code_points us" by simp
    have "concat (map utf16_encode (code_points us)) = us"
      using 3(1) True by blast
    then show ?thesis unfolding cp using utf16_encode_pair [of u1 u2] True by simp
  next
    case False
    then have cp: "code_points (u1 # u2 # us) = unat u1 # code_points (u2 # us)" by auto
    have e: "utf16_encode (unat u1) = [u1]" using lt by (simp add: utf16_encode_def)
    have "concat (map utf16_encode (code_points (u2 # us))) = u2 # us"
      using 3(2) False by blast
    then show ?thesis unfolding cp using e by simp
  qed
qed

lemma code_points_Cons: "\<not> is_lead u \<Longrightarrow> code_points (u # s) = unat u # code_points s"
  by (cases s) (auto simp: is_lead_def)

lemma code_points_utf16_encode:
  assumes "c < 0x110000" "\<not> is_surrogate c"
  shows "code_points (utf16_encode c @ s) = c # code_points s"
proof (cases "c < 0x10000")
  case True
  then have u: "unat (of_nat c :: 16 word) = c" by (simp add: unat_of_nat_unit)
  have "\<not> is_lead (of_nat c)" using assms u by (auto simp: is_lead_def is_surrogate_def)
  with True u show ?thesis by (simp add: utf16_encode_def code_points_Cons)
next
  case False
  define x where "x = c - 0x10000"
  define h where "h = 0xD800 + x div 0x400"
  define l where "l = 0xDC00 + x mod 0x400"
  have x: "x < 0x100000" using assms False by (simp add: x_def)
  then have xd: "x div 0x400 < 0x400" by simp
  have hr: "0xD800 \<le> h" "h \<le> 0xDBFF" using xd by (simp_all add: h_def)
  have lr: "0xDC00 \<le> l" "l \<le> 0xDFFF" by (simp_all add: l_def)
  have uh: "unat (of_nat h :: 16 word) = h" using hr by (simp add: unat_of_nat_unit)
  have ul: "unat (of_nat l :: 16 word) = l" using lr by (simp add: unat_of_nat_unit)
  have v: "0x10000 + (h - 0xD800) * 0x400 + (l - 0xDC00) = c"
    using False by (simp add: h_def l_def x_def)
  have enc: "utf16_encode c = [of_nat h, of_nat l]"
    using False by (simp add: utf16_encode_def h_def l_def x_def)
  show ?thesis
    unfolding enc using hr lr v by (simp add: uh ul)
qed

lemma utf8_run_scalars:
  "scalars cs \<Longrightarrow>
   utf8_run utf8_init (concat (map (\<lambda>c. utf8_encode (scalar_value c)) cs) @ bs) =
     (case utf8_run utf8_init bs of (d, out) \<Rightarrow> (d, cs @ out))"
proof (induction cs)
  case Nil
  then show ?case by (simp split: prod.splits)
next
  case (Cons c cs)
  then have c: "c < 0x110000" "\<not> is_surrogate c" and cs: "scalars cs"
    by (simp_all add: scalars_def)
  show ?case
    using utf8_run_encode [OF c] Cons.IH [OF cs] c
    by (simp add: scalar_value_def split: prod.splits)
qed

lemma serialize_no_BOM:
  "seen \<or> cs = [] \<or> hd cs \<noteq> 0xFEFF \<Longrightarrow>
   serialize seen cs = (seen \<or> cs \<noteq> [], concat (map utf16_encode cs))"
proof (induction cs arbitrary: seen)
  case Nil
  then show ?case by simp
next
  case (Cons c cs)
  have "serialize True cs = (True, concat (map utf16_encode cs))"
    using Cons.IH [of True] by simp
  with Cons.prems show ?case by auto
qed

subsection \<open>Parsing a quoted string\<close>

lemma unit_eq_iff: "(u :: 16 word) = v \<longleftrightarrow> unat u = unat v"
  by (simp add: word_unat_eq_iff)

lemma parse_chars_plain:
  assumes "0x20 \<le> unat u" "unat u \<noteq> 0x22" "unat u \<noteq> 0x5C"
  shows "parse_chars (u # r) = cons_fst u (parse_chars r)"
proof -
  have "u \<noteq> 0x22" "u \<noteq> 0x5C" using assms by (auto simp: unit_eq_iff)
  moreover have "\<not> u < 0x20" using assms by (simp add: word_less_nat_alt)
  ultimately show ?thesis by simp
qed

lemma hex_val_hex_digit: "n < 16 \<Longrightarrow> hex_val (hex_digit n) = Some n"
proof -
  assume n: "n < 16"
  show ?thesis
  proof (cases "n < 10")
    case True
    define m where "m = 0x30 + n"
    have m: "0x30 \<le> m" "m \<le> 0x39" using True by (simp_all add: m_def)
    have u: "unat (of_nat m :: 16 word) = m"
      using m by (simp add: unat_of_nat_unit)
    have r: "0x30 \<le> (of_nat m :: 16 word)" "(of_nat m :: 16 word) \<le> 0x39"
      using m u by (simp_all add: word_le_nat_alt)
    have "hex_digit n = of_nat m" using True by (simp only: hex_digit_def m_def if_True)
    then show ?thesis using r u by (simp add: hex_val_def m_def)
  next
    case False
    define m where "m = 0x61 + (n - 10)"
    have m: "0x61 \<le> m" "m \<le> 0x66" using False n by (simp_all add: m_def)
    have u: "unat (of_nat m :: 16 word) = m"
      using m by (simp add: unat_of_nat_unit)
    have r: "\<not> (of_nat m :: 16 word) \<le> 0x39" "\<not> (of_nat m :: 16 word) \<le> 0x46"
      "0x61 \<le> (of_nat m :: 16 word)" "(of_nat m :: 16 word) \<le> 0x66"
      using m u by (simp_all add: word_le_nat_alt)
    have "hex_digit n = of_nat m" using False by (simp only: hex_digit_def m_def if_False)
    then show ?thesis using r u False n by (simp add: hex_val_def m_def)
  qed
qed

lemma hex_split: "c < 0x10000 \<Longrightarrow>
  ((c div 0x1000 mod 0x10 * 16 + c div 0x100 mod 0x10) * 16 + c div 0x10 mod 0x10) * 16 + c mod 0x10 = c"
  for c :: nat
proof -
  assume c: "c < 0x10000"
  have d: "c div 0x100 = c div 0x10 div 0x10" "c div 0x1000 = c div 0x10 div 0x10 div 0x10"
    by (simp_all add: div_mult2_eq [symmetric])
  have "c div 0x1000 < 0x10" using c by simp
  then have "c div 0x1000 mod 0x10 = c div 0x10 div 0x10 div 0x10" unfolding d by simp
  then show ?thesis unfolding d by (simp add: algebra_simps)
qed

lemma parse_chars_UnicodeEscape:
  assumes "c < 0x10000"
  shows "parse_chars (UnicodeEscape c @ r) = cons_fst (of_nat c) (parse_chars r)"
proof -
  have h: "hex4 (hex_digit (c div 0x1000 mod 0x10)) (hex_digit (c div 0x100 mod 0x10))
             (hex_digit (c div 0x10 mod 0x10)) (hex_digit (c mod 0x10)) = Some (of_nat c)"
    by (simp only: hex4_def hex_val_hex_digit mod_less_divisor zero_less_numeral prod.case
          option.case hex_split [OF assms])
  show ?thesis by (simp add: UnicodeEscape_def h)
qed

lemma cons_fst_Some: "cons_fst x (Some (xs, r)) = Some (x # xs, r)"
  by (simp add: cons_fst_def)

lemma parse_chars_quote_code_point:
  assumes "c < 0x110000" "parse_chars r = Some (s, r')"
  shows "parse_chars (quote_code_point c @ r) = Some (utf16_encode c @ s, r')"
proof -
  consider (ctl) "c < 0x20" | (quote) "c = 0x22" | (bs) "c = 0x5C" | (sur) "is_surrogate c"
    | (bmp) "\<not> c < 0x20" "c \<noteq> 0x22" "c \<noteq> 0x5C" "\<not> is_surrogate c" "c < 0x10000"
    | (sup) "\<not> c < 0x10000"
    by blast
  then show ?thesis
  proof cases
    case ctl
    then have lt: "c < 0x10000" by simp
    have u: "utf16_encode c = [of_nat c]" using lt by (simp add: utf16_encode_def)
    consider "c = 0x08" | "c = 0x09" | "c = 0x0A" | "c = 0x0C" | "c = 0x0D"
      | "c \<noteq> 0x08" "c \<noteq> 0x09" "c \<noteq> 0x0A" "c \<noteq> 0x0C" "c \<noteq> 0x0D"
      by blast
    then show ?thesis
    proof cases
      case 6
      then have "quote_code_point c = UnicodeEscape c"
        using ctl by (simp add: quote_code_point_def)
      then show ?thesis
        using parse_chars_UnicodeEscape [OF lt] assms(2) u by (simp add: cons_fst_Some)
    qed (use assms(2) in \<open>simp_all add: quote_code_point_def utf16_encode_def simple_escape_def cons_fst_Some\<close>)
  next
    case quote
    then show ?thesis
      using assms(2) by (simp add: quote_code_point_def utf16_encode_def simple_escape_def cons_fst_Some)
  next
    case bs
    then show ?thesis
      using assms(2) by (simp add: quote_code_point_def utf16_encode_def simple_escape_def cons_fst_Some)
  next
    case sur
    then have lt: "c < 0x10000" by (simp add: is_surrogate_def)
    have u: "utf16_encode c = [of_nat c]" using lt by (simp add: utf16_encode_def)
    have "quote_code_point c = UnicodeEscape c"
      using sur by (auto simp: quote_code_point_def is_surrogate_def)
    then show ?thesis
      using parse_chars_UnicodeEscape [OF lt] assms(2) u by (simp add: cons_fst_Some)
  next
    case bmp
    have un: "unat (of_nat c :: 16 word) = c" using bmp by (simp add: unat_of_nat_unit)
    have q: "quote_code_point c = [of_nat c]"
      using bmp by (auto simp: quote_code_point_def utf16_encode_def)
    have ge: "0x20 \<le> c" using bmp by simp
    have u: "utf16_encode c = [of_nat c]" using bmp by (simp add: utf16_encode_def)
    show ?thesis
      unfolding q u using parse_chars_plain [of "of_nat c" r] bmp ge un assms(2)
      by (simp add: cons_fst_Some)
  next
    case sup
    then have sup: "0x10000 \<le> c" by simp
    define x where "x = c - 0x10000"
    define h where "h = 0xD800 + x div 0x400"
    define l where "l = 0xDC00 + x mod 0x400"
    have x: "x < 0x100000" using assms sup by (simp add: x_def)
    then have xd: "x div 0x400 < 0x400" by simp
    have hr: "0xD800 \<le> h" "h \<le> 0xDBFF" using xd by (simp_all add: h_def)
    have lr: "0xDC00 \<le> l" "l \<le> 0xDFFF" by (simp_all add: l_def)
    have uh: "unat (of_nat h :: 16 word) = h" using hr by (simp add: unat_of_nat_unit)
    have ul: "unat (of_nat l :: 16 word) = l" using lr by (simp add: unat_of_nat_unit)
    have u: "utf16_encode c = [of_nat h, of_nat l]"
      using sup by (simp add: utf16_encode_def h_def l_def x_def)
    have q: "quote_code_point c = [of_nat h, of_nat l]"
      using sup u by (auto simp: quote_code_point_def is_surrogate_def)
    have p2: "parse_chars (of_nat l # r) = Some (of_nat l # s, r')"
      using parse_chars_plain [of "of_nat l" r] lr ul assms(2) by (simp add: cons_fst_Some)
    have p1: "parse_chars (of_nat h # of_nat l # r) = Some (of_nat h # of_nat l # s, r')"
      using parse_chars_plain [of "of_nat h" "of_nat l # r"] hr uh p2 by (simp add: cons_fst_Some)
    show ?thesis unfolding q u using p1 by simp
  qed
qed

lemma parse_chars_quoted:
  "\<forall>c \<in> set cs. c < 0x110000 \<Longrightarrow>
   parse_chars (concat (map quote_code_point cs) @ 0x22 # rest) = Some (concat (map utf16_encode cs), rest)"
proof (induction cs)
  case Nil
  then show ?case by simp
next
  case (Cons c cs)
  then have "parse_chars (concat (map quote_code_point cs) @ 0x22 # rest) =
      Some (concat (map utf16_encode cs), rest)" by simp
  from parse_chars_quote_code_point [OF _ this, of c] Cons.prems show ?case by simp
qed

lemma parse_chars_QuoteJSONString:
  "parse_chars (tl (QuoteJSONString s) @ rest) = Some (s, rest)"
  using parse_chars_quoted [of "code_points s" rest] code_points_bound [of _ s]
  by (simp add: QuoteJSONString_def utf16_code_points)

subsection \<open>Serialized frames are well-formed single lines\<close>

lemma safe_Nil: "safe []"
  by (simp add: safe_def)

lemma safe_append: "safe a \<Longrightarrow> safe b \<Longrightarrow> safe (a @ b)"
  by (simp add: safe_def)

lemma safe_unit:
  assumes "unat u < 0xD800 \<or> 0xDFFF < unat u" "unat u \<noteq> 0x0A"
  shows "safe [u]"
proof -
  have nl: "u \<noteq> 0x0A" using assms(2) by (auto simp: unit_eq_iff)
  have l: "\<not> is_lead u" using assms(1) by (auto simp: is_lead_def)
  have b: "unat u < 0x110000" using unat_unit_bound [of u] by simp
  show ?thesis
    using nl assms(1) b by (auto simp: safe_def code_points_Cons [OF l] scalars_def is_surrogate_def)
qed

lemma safe_plain_ascii: "plain_ascii a \<Longrightarrow> safe a"
proof (induction a)
  case Nil
  then show ?case by (simp add: safe_Nil)
next
  case (Cons u a)
  then have "safe [u]" "safe a" by (simp_all add: plain_ascii_def safe_unit)
  then show ?case using safe_append [of "[u]" a] by simp
qed

lemma unat_hex_digit: "n < 16 \<Longrightarrow> 0x30 \<le> unat (hex_digit n) \<and> unat (hex_digit n) < 0x80"
proof -
  assume n: "n < 16"
  define m where "m = (if n < 10 then 0x30 + n else 0x61 + (n - 10))"
  have m: "0x30 \<le> m" "m < 0x80" using n by (simp_all add: m_def)
  have h: "hex_digit n = of_nat m" by (simp only: hex_digit_def m_def if_distrib [of of_nat])
  have "unat (of_nat m :: 16 word) = m" using m by (simp add: unat_of_nat_unit)
  then show ?thesis unfolding h using m by simp
qed

lemma safe_UnicodeEscape: "safe (UnicodeEscape c)"
proof -
  have "plain_ascii (UnicodeEscape c)"
    using unat_hex_digit [of "c div 0x1000 mod 0x10"] unat_hex_digit [of "c div 0x100 mod 0x10"]
      unat_hex_digit [of "c div 0x10 mod 0x10"] unat_hex_digit [of "c mod 0x10"]
    by (simp add: UnicodeEscape_def plain_ascii_def)
  then show ?thesis by (rule safe_plain_ascii)
qed

lemma safe_utf16_encode:
  assumes "c < 0x110000" "\<not> is_surrogate c" "c \<noteq> 0x0A"
  shows "safe (utf16_encode c)"
proof -
  have "0x0A \<notin> set (utf16_encode c)"
  proof (cases "c < 0x10000")
    case True
    then have "unat (of_nat c :: 16 word) = c" by (simp add: unat_of_nat_unit)
    then have "(of_nat c :: 16 word) \<noteq> 0x0A" using assms(3) by (auto simp: unit_eq_iff)
    with True show ?thesis by (simp add: utf16_encode_def)
  next
    case False
    define x where "x = c - 0x10000"
    define h where "h = 0xD800 + x div 0x400"
    define l where "l = 0xDC00 + x mod 0x400"
    have x: "x < 0x100000" using assms False by (simp add: x_def)
    then have xd: "x div 0x400 < 0x400" by simp
    have hr: "0xD800 \<le> h" "h \<le> 0xDBFF" using xd by (simp_all add: h_def)
    have lr: "0xDC00 \<le> l" "l \<le> 0xDFFF" by (simp_all add: l_def)
    have uh: "unat (of_nat h :: 16 word) = h" using hr by (simp add: unat_of_nat_unit)
    have ul: "unat (of_nat l :: 16 word) = l" using lr by (simp add: unat_of_nat_unit)
    have u: "utf16_encode c = [of_nat h, of_nat l]"
      using False by (simp add: utf16_encode_def h_def l_def x_def)
    have "(of_nat h :: 16 word) \<noteq> 0x0A" "(of_nat l :: 16 word) \<noteq> 0x0A"
      using uh ul hr lr by (auto simp: unit_eq_iff)
    then show ?thesis unfolding u by simp
  qed
  then show ?thesis
    using assms by (simp add: safe_def code_points_utf16_encode scalars_def)
qed

lemma safe_quote_code_point:
  assumes "c < 0x110000"
  shows "safe (quote_code_point c)"
proof -
  have two: "safe [0x5C, u]" if "unat u < 0x80" "unat u \<noteq> 0x0A" for u :: "16 word"
    using that by (intro safe_plain_ascii) (simp add: plain_ascii_def)
  consider "c = 0x08" | "c = 0x09" | "c = 0x0A" | "c = 0x0C" | "c = 0x0D" | "c = 0x22" | "c = 0x5C"
    | (esc) "c \<noteq> 0x08" "c \<noteq> 0x09" "c \<noteq> 0x0A" "c \<noteq> 0x0C" "c \<noteq> 0x0D" "c \<noteq> 0x22" "c \<noteq> 0x5C"
        "c < 0x20 \<or> is_surrogate c"
    | (raw) "c \<noteq> 0x0A" "c \<noteq> 0x08" "c \<noteq> 0x09" "c \<noteq> 0x0C" "c \<noteq> 0x0D" "c \<noteq> 0x22" "c \<noteq> 0x5C"
        "\<not> (c < 0x20 \<or> is_surrogate c)"
    by blast
  then show ?thesis
  proof cases
    case esc
    then have "quote_code_point c = UnicodeEscape c" by (simp add: quote_code_point_def)
    then show ?thesis by (simp add: safe_UnicodeEscape)
  next
    case raw
    then have "quote_code_point c = utf16_encode c" by (simp add: quote_code_point_def)
    then show ?thesis using safe_utf16_encode [of c] assms raw by simp
  qed (simp_all add: quote_code_point_def two)
qed

lemma safe_concat: "\<forall>q \<in> set qs. safe q \<Longrightarrow> safe (concat qs)"
  by (induction qs) (simp_all add: safe_Nil safe_append)

lemma safe_QuoteJSONString: "safe (QuoteJSONString s)"
proof -
  have q: "safe [0x22]" by (intro safe_plain_ascii) (simp add: plain_ascii_def)
  have "safe (concat (map quote_code_point (code_points s)))"
    by (intro safe_concat) (auto simp: safe_quote_code_point code_points_bound)
  then show ?thesis
    unfolding QuoteJSONString_def by (intro safe_append q)
qed

lemma safe_serialize_jsval: "safe (serialize_jsval v)"
proof (cases v)
  case (VStr s)
  then show ?thesis by (simp add: safe_QuoteJSONString)
next
  case (VBool b)
  then show ?thesis
    by (cases b) (auto intro!: safe_plain_ascii simp: plain_ascii_def)
qed

lemma safe_serialize_props: "safe (serialize_props props)"
proof (induction props rule: serialize_props.induct)
  case 1
  then show ?case by (simp add: safe_Nil)
next
  case (2 k v)
  have c: "safe (ascii '':'')" by (intro safe_plain_ascii) (simp add: plain_ascii_def)
  show ?case
    by (simp only: serialize_props.simps) (intro safe_append safe_QuoteJSONString safe_serialize_jsval c)
next
  case (3 k v p ps)
  have c: "safe (ascii '':'')" "safe (ascii '','')"
    by (intro safe_plain_ascii; simp add: plain_ascii_def)+
  show ?case
    by (simp only: serialize_props.simps)
       (intro safe_append safe_QuoteJSONString safe_serialize_jsval c 3)
qed

lemma safe_JSON_stringify: "safe (JSON_stringify props)"
proof -
  have "safe (ascii ''{'')" "safe (ascii ''}'')"
    by (intro safe_plain_ascii; simp add: plain_ascii_def)+
  then show ?thesis
    unfolding JSON_stringify_def by (intro safe_append safe_serialize_props)
qed

subsection \<open>JSON.parse inverts JSON.stringify\<close>

lemma QuoteJSONString_Cons: "QuoteJSONString s = 0x22 # quoted_body s"
  by (simp add: QuoteJSONString_def quoted_body_def)

lemma quoted_body_not_Nil [simp]: "quoted_body s \<noteq> []"
  by (simp add: quoted_body_def)

lemma parse_chars_quoted_body: "parse_chars (quoted_body s @ rest) = Some (s, rest)"
  using parse_chars_QuoteJSONString [of s rest] by (simp add: QuoteJSONString_Cons)

lemma skip_ws_Cons: "\<not> is_ws c \<Longrightarrow> skip_ws (c # s) = c # s"
  by (simp add: skip_ws_def)

lemma skip_ws_Nil: "skip_ws [] = []"
  by (simp add: skip_ws_def)

lemma parse_value_jsval: "parse_value (serialize_jsval v @ r) = Some (json_of v, r)"
proof (cases v)
  case (VStr s)
  show ?thesis
    unfolding VStr serialize_jsval.simps QuoteJSONString_Cons
    by (subst parse_value.simps) (simp add: parse_chars_quoted_body)
next
  case (VBool b)
  show ?thesis
    unfolding VBool
    by (cases b; subst parse_value.simps) (simp_all add: parse_literal_def)
qed

lemma serialize_jsval_Cons: "\<exists>c s. serialize_jsval v = c # s \<and> \<not> is_ws c"
  by (cases v rule: serialize_jsval.cases) (simp_all add: QuoteJSONString_Cons is_ws_def)

lemma skip_ws_jsval: "skip_ws (serialize_jsval v @ r) = serialize_jsval v @ r"
  using serialize_jsval_Cons [of v] by (auto simp: skip_ws_Cons)

lemma serialize_props_Cons: "\<exists>b. serialize_props (p # ps) = 0x22 # b"
  by (cases "(p # ps)" rule: serialize_props.cases) (simp_all add: QuoteJSONString_Cons)

lemma parse_members_props:
  "parse_members (serialize_props (p # ps) @ 0x7D # rest) =
     Some (map (\<lambda>(k, v). (k, json_of v)) (p # ps), rest)"
proof (induction ps arbitrary: p)
  case Nil
  obtain k v where p: "p = (k, v)" by (cases p)
  show ?case
    unfolding p
    by (subst parse_members.simps)
       (simp add: QuoteJSONString_Cons parse_chars_quoted_body skip_ws_Cons is_ws_def
          skip_ws_jsval parse_value_jsval)
next
  case (Cons p' ps)
  obtain k v where p: "p = (k, v)" by (cases p)
  have sk: "skip_ws (serialize_props (p' # ps) @ 0x7D # rest) = serialize_props (p' # ps) @ 0x7D # rest"
    using serialize_props_Cons [of p' ps] by (auto simp: skip_ws_Cons is_ws_def)
  show ?case
    unfolding p
    by (subst parse_members.simps)
       (simp add: QuoteJSONString_Cons parse_chars_quoted_body skip_ws_Cons is_ws_def
          skip_ws_jsval parse_value_jsval sk Cons.IH cons_fst_Some)
qed

lemma JSON_parse_stringify:
  "JSON_parse (JSON_stringify props) = Some (JObj (map (\<lambda>(k, v). (k, json_of v)) props))"
proof (cases props)
  case Nil
  show ?thesis
    unfolding Nil
    by (simp add: JSON_parse_def JSON_stringify_def skip_ws_Cons is_ws_def)
       (subst parse_value.simps, simp add: skip_ws_Cons skip_ws_Nil is_ws_def)
next
  case (Cons p ps)
  obtain b where b: "serialize_props (p # ps) = 0x22 # b"
    using serialize_props_Cons [of p ps] by blast
  have sk: "skip_ws (0x22 # b @ [0x7D]) = 0x22 # b @ [0x7D]"
    by (simp add: skip_ws_Cons is_ws_def)
  have pm: "parse_members (0x22 # b @ [0x7D]) =
      Some (map (\<lambda>(k, v). (k, json_of v)) (p # ps), [])"
    using parse_members_props [of p ps "[]"] b by simp
  have pv: "parse_value (0x7B # 0x22 # b @ [0x7D]) =
      Some (JObj (map (\<lambda>(k, v). (k, json_of v)) (p # ps)), [])"
    by (subst parse_value.simps) (simp add: sk pm)
  show ?thesis
    unfolding Cons
    using pv by (simp add: JSON_parse_def JSON_stringify_def skip_ws_Cons skip_ws_Nil is_ws_def b)
qed

subsection \<open>The encoded stream and its decoding\<close>

lemma encode_units_deltas:
  "encode_units units = map (\<lambda>t. Enqueue (TextEncoder_encode (frame_line (content_frame t)))) (deltas units)"
  by (induction units) (auto split: option.splits)

lemma createStreamResponse_frames:
  "createStreamResponse units ending =
     map (\<lambda>p. Enqueue (TextEncoder_encode (frame_line p))) (frames_of units ending) @ [Close]"
  by (cases ending)
     (simp_all add: createStreamResponse_def encode_units_deltas frames_of_def terminal_frame_def)

lemma enqueued_map_Enqueue: "enqueued (map (\<lambda>p. Enqueue (f p)) ps @ [Close]) = map f ps"
  by (induction ps) simp_all

lemma enqueued_createStreamResponse:
  "enqueued (createStreamResponse units ending) =
     map (\<lambda>p. TextEncoder_encode (frame_line p)) (frames_of units ending)"
  by (simp only: createStreamResponse_frames enqueued_map_Enqueue)

lemma processStream_fresh:
  "snd (processStream nts new_StreamProcessor (Some (chunks, ending))) =
     outcome ending (process_lines nts (complete_lines (decode_text (concat chunks))) ([], []))"
proof -
  obtain sp' ft evs fin where r: "read_loop nts chunks new_StreamProcessor ([], []) = ((sp', (ft, evs)), fin)"
    by (metis surj_pair)
  have "process_lines nts (complete_lines (decode_text (concat chunks))) ([], []) = ((ft, evs), fin)"
    using read_loop_lines [of new_StreamProcessor nts chunks "([], [])"] r
    by (simp add: new_StreamProcessor_def complete_lines_def decode_text_def)
  then show ?thesis
    using r by (simp add: processStream_def outcome_def Let_def split: read_end.splits bool.splits)
qed

lemma frame_line_text: "frame_line props = frame_text props @ [0x0A, 0x0A]"
  by (simp add: frame_line_def frame_text_def)

lemma safe_frame_text: "safe (frame_text props)"
proof -
  have "safe (ascii ''data: '')" by (intro safe_plain_ascii) (simp add: plain_ascii_def)
  then show ?thesis
    unfolding frame_text_def by (intro safe_append safe_JSON_stringify)
qed

lemma scalars_frame_line: "scalars (code_points (frame_line props))"
proof -
  have "scalars (code_points [0x0A, 0x0A])"
    by (simp add: scalars_def is_surrogate_def)
  then show ?thesis
    using safe_frame_text [of props] by (simp add: safe_def frame_line_text)
qed

lemma code_points_frame_line: "\<exists>cs. code_points (frame_line props) = 0x64 # cs"
proof -
  have "\<not> is_lead 0x64" by (simp add: is_lead_def)
  then show ?thesis
    by (simp add: frame_line_def code_points_Cons)
qed

lemma utf8_run_frames:
  "utf8_run utf8_init (concat (map (\<lambda>p. TextEncoder_encode (frame_line p)) frames)) =
     (utf8_init, concat (map (\<lambda>p. code_points (frame_line p)) frames))"
proof (induction frames)
  case Nil
  then show ?case by simp
next
  case (Cons p frames)
  show ?case
    using utf8_run_scalars [OF scalars_frame_line [of p]] Cons.IH
    by (simp add: TextEncoder_encode_def)
qed

lemma utf16_frames:
  "concat (map utf16_encode (concat (map (\<lambda>p. code_points (frame_line p)) frames))) =
     concat (map frame_line frames)"
  by (induction frames) (simp_all add: utf16_code_points)

lemma decode_text_frames:
  "decode_text (concat (map (\<lambda>p. TextEncoder_encode (frame_line p)) frames)) =
     concat (map frame_line frames)"
proof -
  let ?cps = "concat (map (\<lambda>p. code_points (frame_line p)) frames)"
  have "?cps = [] \<or> hd ?cps \<noteq> 0xFEFF"
  proof (cases frames)
    case Nil
    then show ?thesis by simp
  next
    case (Cons p ps)
    then show ?thesis using code_points_frame_line [of p] by auto
  qed
  then have "serialize False ?cps = (?cps \<noteq> [], concat (map utf16_encode ?cps))"
    using serialize_no_BOM [of False ?cps] by simp
  then show ?thesis
    by (simp add: decode_text_def TextDecoder_decode_def new_TextDecoder_def utf8_run_frames
        utf16_frames)
qed

lemma split_newline_line:
  "0x0A \<notin> set l \<Longrightarrow> split_newline (l @ 0x0A # rest) = l # split_newline rest"
  by (induction l) auto

lemma split_newline_frames:
  "split_newline (concat (map frame_line frames)) =
     concat (map (\<lambda>p. [frame_text p, []]) frames) @ [[]]"
proof (induction frames)
  case Nil
  then show ?case by simp
next
  case (Cons p frames)
  have nl: "0x0A \<notin> set (frame_text p)" using safe_frame_text [of p] by (simp add: safe_def)
  have fl: "frame_line p = frame_text p @ [0x0A, 0x0A]" by (rule frame_line_text)
  have "split_newline (frame_text p @ 0x0A # 0x0A # concat (map frame_line frames)) =
      frame_text p # [] # split_newline (concat (map frame_line frames))"
    using split_newline_line [OF nl] by simp
  with Cons show ?case by (simp add: fl)
qed

lemma complete_lines_frames:
  "complete_lines (concat (map frame_line frames)) = concat (map (\<lambda>p. [frame_text p, []]) frames)"
  by (simp add: complete_lines_def split_newline_frames)

lemma process_line_empty: "process_line nts [] st = (st, False)"
  by (simp add: process_line_def)

lemma process_line_frame:
  "process_line nts (frame_text props) st =
     (let data = JObj (map (\<lambda>(k, v). (k, json_of v)) props) in
      if truthy nts (get_prop data (ascii ''error'')) then (st, False)
      else
        (case append_content nts (get_prop data (ascii ''content'')) st of
           None \<Rightarrow> (st, False)
         | Some st' \<Rightarrow>
             if truthy nts (get_prop data (ascii ''done''))
             then ((fst st', snd st' @ [OnComplete (fst st')]), True)
             else (st', False)))"
  by (simp add: process_line_def frame_text_def JSON_parse_stringify Let_def)

lemma process_line_content_frame:
  "t \<noteq> [] \<Longrightarrow>
   process_line nts (frame_text (content_frame t)) (ft, evs) = ((ft @ t, evs @ [OnChunk (JStr t)]), False)"
  by (simp add: process_line_frame content_frame_def get_prop_def append_content_def)

lemma process_line_done_frame:
  "process_line nts (frame_text done_frame) (ft, evs) = ((ft, evs @ [OnComplete ft]), True)"
  by (simp add: process_line_frame done_frame_def get_prop_def append_content_def)

lemma process_lines_content_frames:
  "[] \<notin> set ds \<Longrightarrow>
   process_lines nts (concat (map (\<lambda>d. [frame_text (content_frame d), []]) ds) @ rest) (ft, evs) =
     process_lines nts rest (ft @ concat ds, evs @ map (\<lambda>d. OnChunk (JStr d)) ds)"
proof (induction ds arbitrary: ft evs)
  case Nil
  then show ?case by simp
next
  case (Cons d ds)
  then have d: "d \<noteq> []" and ds: "[] \<notin> set ds" by auto
  show ?case
    using Cons.IH [OF ds, of "ft @ d" "evs @ [OnChunk (JStr d)]"]
    by (simp add: process_line_content_frame [OF d] process_line_empty)
qed

lemma deltas_nonempty: "[] \<notin> set (deltas units)"
  by (induction units) (auto split: option.splits)

lemma deltas_eq: "map extract_text units = map Some ds \<Longrightarrow> [] \<notin> set ds \<Longrightarrow> deltas units = ds"
  by (induction units arbitrary: ds) auto

lemma complete_lines_encoded:
  "complete_lines (decode_text (concat (enqueued (createStreamResponse units ending)))) =
     concat (map (\<lambda>p. [frame_text p, []]) (frames_of units ending))"
  by (simp only: enqueued_createStreamResponse decode_text_frames complete_lines_frames)

lemma decode_encoded_stream:
  "concat chunks = concat (enqueued (createStreamResponse units Returns)) \<Longrightarrow>
   snd (processStream nts new_StreamProcessor (Some (chunks, EndOfData))) =
     (map (\<lambda>d. OnChunk (JStr d)) (deltas units) @ [OnComplete (concat (deltas units)), ReleaseLock],
      Inr (concat (deltas units)))"
proof -
  assume c: "concat chunks = concat (enqueued (createStreamResponse units Returns))"
  have l: "concat (map (\<lambda>p. [frame_text p, []]) (frames_of units Returns)) =
      concat (map (\<lambda>d. [frame_text (content_frame d), []]) (deltas units)) @
        [frame_text done_frame, []]"
    by (simp add: frames_of_def terminal_frame_def comp_def)
  have p: "process_lines nts
          (concat (map (\<lambda>d. [frame_text (content_frame d), []]) (deltas units)) @
             [frame_text done_frame, []]) ([], []) =
        ((concat (deltas units),
          map (\<lambda>d. OnChunk (JStr d)) (deltas units) @ [OnComplete (concat (deltas units))]), True)"
    by (simp add: process_lines_content_frames [OF deltas_nonempty] process_line_done_frame)
  show ?thesis
    by (simp only: processStream_fresh c complete_lines_encoded l p) (simp add: outcome_def)
qed

subsection \<open>Invariants of the read loop\<close>

lemma read_loop_buffer:
  "0x0A \<notin> set (buffer sp) \<Longrightarrow> read_loop nts chunks sp st = ((sp', st'), False) \<Longrightarrow>
   buffer sp' = last (split_newline (buffer sp @ snd (TextDecoder_decode (decoder sp) (concat chunks) True)))"
proof (induction chunks arbitrary: sp st)
  case Nil
  then show ?case by (simp add: decode_stream_Nil split_newline_no_nl)
next
  case (Cons v rest)
  obtain td t1 where d: "TextDecoder_decode (decoder sp) v True = (td, t1)"
    by (cases "TextDecoder_decode (decoder sp) v True")
  obtain td2 t2 where d2: "TextDecoder_decode td (concat rest) True = (td2, t2)"
    by (cases "TextDecoder_decode td (concat rest) True")
  let ?lines = "split_newline (buffer sp @ t1)"
  let ?sp = "\<lparr>decoder = td, buffer = last ?lines\<rparr>"
  have nl: "0x0A \<notin> set (buffer ?sp)"
    by (simp add: last_split_newline_no_nl)
  have split: "last (split_newline (buffer sp @ t1 @ t2)) = last (split_newline (last ?lines @ t2))"
    using split_newline_append [of "buffer sp @ t1" t2] by simp
  obtain st1 fin1 where p: "process_lines nts (butlast ?lines) st = (st1, fin1)"
    by (cases "process_lines nts (butlast ?lines) st")
  from Cons.prems(2) d p have f: "fin1 = False" and r: "read_loop nts rest ?sp st1 = ((sp', st'), False)"
    by (auto simp: Let_def split: bool.splits)
  have "buffer sp' = last (split_newline (last ?lines @ t2))"
    using Cons.IH [OF nl r] d2 by simp
  with d d2 split show ?case
    by (simp add: decode_stream_append)
qed

lemma process_line_malformed: "malformed line \<Longrightarrow> process_line nts line st = (st, False)"
  by (simp add: malformed_def process_line_def)

lemma process_lines_filter_malformed:
  "process_lines nts (filter (\<lambda>l. \<not> malformed l) ls) st = process_lines nts ls st"
  by (induction ls arbitrary: st) (auto simp: process_line_malformed split: prod.splits bool.splits)

lemma append_content_accumulated:
  "accumulated nts st \<Longrightarrow> append_content nts c st = Some st' \<Longrightarrow> accumulated nts st'"
  by (auto simp: accumulated_def append_content_def split: if_splits option.splits)

lemma process_line_accumulated:
  "accumulated nts st \<Longrightarrow> process_line nts line st = (st', False) \<Longrightarrow> accumulated nts st'"
  by (auto simp: process_line_def split: if_splits option.splits dest: append_content_accumulated)

lemma process_lines_accumulated:
  "accumulated nts st \<Longrightarrow> process_lines nts ls st = (st', False) \<Longrightarrow> accumulated nts st'"
proof (induction ls arbitrary: st)
  case Nil
  then show ?case by simp
next
  case (Cons l ls)
  obtain st1 fin1 where p: "process_line nts l st = (st1, fin1)"
    by (cases "process_line nts l st")
  with Cons.prems(2) have f: "fin1 = False" and r: "process_lines nts ls st1 = (st', False)"
    by (auto split: bool.splits)
  from process_line_accumulated [OF Cons.prems(1)] p f have "accumulated nts st1" by simp
  from Cons.IH [OF this r] show ?case .
qed

lemma read_loop_accumulated:
  "accumulated nts st \<Longrightarrow> read_loop nts chunks sp st = ((sp', st'), False) \<Longrightarrow> accumulated nts st'"
proof (induction chunks arbitrary: sp st)
  case Nil
  then show ?case by simp
next
  case (Cons v rest)
  obtain td t1 where d: "TextDecoder_decode (decoder sp) v True = (td, t1)"
    by (cases "TextDecoder_decode (decoder sp) v True")
  let ?lines = "split_newline (buffer sp @ t1)"
  let ?sp = "\<lparr>decoder = td, buffer = last ?lines\<rparr>"
  obtain st1 fin1 where p: "process_lines nts (butlast ?lines) st = (st1, fin1)"
    by (cases "process_lines nts (butlast ?lines) st")
  from Cons.prems(2) d p have f: "fin1 = False" and r: "read_loop nts rest ?sp st1 = ((sp', st'), False)"
    by (auto simp: Let_def split: bool.splits)
  from process_lines_accumulated [OF Cons.prems(1)] p f have "accumulated nts st1" by simp
  from Cons.IH [OF this r] show ?case .
qed

lemma split_newline_lines:
  "\<forall>l \<in> set ls. 0x0A \<notin> set l \<Longrightarrow> 0x0A \<notin> set partial \<Longrightarrow>
   split_newline (concat (map (\<lambda>l. l @ [0x0A]) ls) @ partial) = ls @ [partial]"
proof (induction ls)
  case Nil
  then show ?case by (simp add: split_newline_no_nl)
next
  case (Cons l ls)
  then have nl: "0x0A \<notin> set l" by simp
  show ?case
    using split_newline_line [OF nl, of "concat (map (\<lambda>l. l @ [0x0A]) ls) @ partial"] Cons
    by simp
qed

subsection \<open>The parsers consume input: the length tests of the parser never fail\<close>

lemma cons_fst_eq_Some: "cons_fst x r = Some (ys, rest) \<longleftrightarrow> (\<exists>xs. r = Some (xs, rest) \<and> ys = x # xs)"
  by (auto simp: cons_fst_def split: option.splits)

lemma parse_chars_shorter: "parse_chars s = Some (t, r) \<Longrightarrow> length r < length s"
proof (induction s arbitrary: t r rule: parse_chars.induct)
  case 1
  then show ?case by simp
next
  case (2 c cs)
  show ?case
    using "2.prems" "2.IH"
    by (auto simp: cons_fst_eq_Some split: if_splits list.splits option.splits) fastforce+
qed

lemma parse_integer_shorter: "parse_integer s = Some r \<Longrightarrow> length r < length s"
  using length_dropWhile_le [of is_digit "tl s"]
  by (auto simp: parse_integer_def split: list.splits if_splits)

lemma parse_fraction_shorter: "parse_fraction s = Some r \<Longrightarrow> length r \<le> length s"
  using length_dropWhile_le [of is_digit "tl s"]
  by (auto simp: parse_fraction_def split: list.splits if_splits)

lemma parse_exponent_shorter: "parse_exponent s = Some r \<Longrightarrow> length r \<le> length s"
  using length_dropWhile_le [of is_digit "tl s"] length_dropWhile_le [of is_digit "tl (tl s)"]
  by (auto simp: parse_exponent_def Let_def split: list.splits if_splits)

lemma parse_number_shorter: "parse_number s = Some (v, r) \<Longrightarrow> length r < length s"
  by (auto simp: parse_number_def split: option.splits list.splits if_splits
      dest!: parse_integer_shorter parse_fraction_shorter parse_exponent_shorter)

lemma parse_literal_shorter: "parse_literal s = Some (v, r) \<Longrightarrow> length r < length s"
  by (cases s) (auto simp: parse_literal_def split: if_splits dest: parse_number_shorter)

lemma skip_ws_le: "length (skip_ws s) \<le> length s"
  by (simp add: skip_ws_def length_dropWhile_le)

lemma parse_shorter:
  "(\<forall>v r. parse_value s = Some (v, r) \<longrightarrow> length r < length s)"
  "(\<forall>vs r. parse_elements s1 = Some (vs, r) \<longrightarrow> length r < length s1)"
  "(\<forall>kvs r. parse_members s2 = Some (kvs, r) \<longrightarrow> length r < length s2)"
proof (induction s and s1 and s2 rule: parse_value_parse_elements_parse_members.induct)
  case (1 s)
  show ?case
  proof (intro allI impI)
    fix v r
    assume a: "parse_value s = Some (v, r)"
    show "length r < length s"
    proof (cases s)
      case Nil
      with a show ?thesis by (simp add: parse_value.simps)
    next
      case (Cons c cs)
      consider (obj) "c = 0x7B" | (arr) "c \<noteq> 0x7B" "c = 0x5B" | (str) "c \<noteq> 0x7B" "c \<noteq> 0x5B" "c = 0x22"
        | (lit) "c \<noteq> 0x7B" "c \<noteq> 0x5B" "c \<noteq> 0x22"
        by blast
      then show ?thesis
      proof cases
        case obj
        show ?thesis
        proof (cases "skip_ws cs")
          case Nil
          with a Cons obj show ?thesis by (simp add: parse_value.simps)
        next
          case (Cons d r')
          note sk = this
          have le: "length (d # r') \<le> length cs" using skip_ws_le [of cs] sk by simp
          show ?thesis
          proof (cases "d = 0x7D")
            case True
            with a \<open>s = c # cs\<close> obj sk le show ?thesis by (simp add: parse_value.simps)
          next
            case False
            from a \<open>s = c # cs\<close> obj sk False obtain kvs where
              m: "parse_members (d # r') = Some (kvs, r)"
              by (auto simp: parse_value.simps split: option.splits)
            from "1.IH"(1) [OF \<open>s = c # cs\<close> obj sk False] m have "length r < length (d # r')" by blast
            with le \<open>s = c # cs\<close> show ?thesis by simp
          qed
        qed
      next
        case arr
        show ?thesis
        proof (cases "skip_ws cs")
          case Nil
          with a Cons arr show ?thesis by (simp add: parse_value.simps)
        next
          case (Cons d r')
          note sk = this
          have le: "length (d # r') \<le> length cs" using skip_ws_le [of cs] sk by simp
          show ?thesis
          proof (cases "d = 0x5D")
            case True
            with a \<open>s = c # cs\<close> arr sk le show ?thesis by (simp add: parse_value.simps)
          next
            case False
            from a \<open>s = c # cs\<close> arr sk False obtain vs where
              m: "parse_elements (d # r') = Some (vs, r)"
              by (auto simp: parse_value.simps split: option.splits)
            from "1.IH"(2) [OF \<open>s = c # cs\<close> arr sk False] m have "length r < length (d # r')" by blast
            with le \<open>s = c # cs\<close> show ?thesis by simp
          qed
        qed
      next
        case str
        with a Cons obtain t where "parse_chars cs = Some (t, r)"
          by (auto simp: parse_value.simps split: option.splits)
        from parse_chars_shorter [OF this] Cons show ?thesis by simp
      next
        case lit
        with a Cons have "parse_literal s = Some (v, r)"
          by (simp add: parse_value.simps)
        from parse_literal_shorter [OF this] show ?thesis .
      qed
    qed
  qed
next
  case (2 s)
  show ?case
  proof (intro allI impI)
    fix vs r
    assume a: "parse_elements s = Some (vs, r)"
    then obtain v r0 where v: "parse_value s = Some (v, r0)" and lt: "length r0 < length s"
      by (auto simp: parse_elements.simps [of s] split: option.splits if_splits)
    show "length r < length s"
    proof (cases "skip_ws r0")
      case Nil
      with a v lt show ?thesis by (simp add: parse_elements.simps [of s])
    next
      case (Cons d r')
      have le: "length r' < length r0" using skip_ws_le [of r0] Cons by simp
      consider (close) "d = 0x5D" | (comma) "d \<noteq> 0x5D" "d = 0x2C" | (other) "d \<noteq> 0x5D" "d \<noteq> 0x2C"
        by blast
      then show ?thesis
      proof cases
        case close
        with a v lt Cons le show ?thesis by (simp add: parse_elements.simps [of s])
      next
        case comma
        with a v lt Cons obtain vs' where m: "parse_elements (skip_ws r') = Some (vs', r)"
          by (auto simp: parse_elements.simps [of s] cons_fst_eq_Some)
        from "2.IH"(2) [OF v [symmetric, THEN sym] refl lt Cons comma] m
        have "length r < length (skip_ws r')" by blast
        with skip_ws_le [of r'] le lt show ?thesis by simp
      next
        case other
        with a v lt Cons show ?thesis by (simp add: parse_elements.simps [of s])
      qed
    qed
  qed
next
  case (3 s)
  show ?case
  proof (intro allI impI)
    fix kvs r
    assume a0: "parse_members s = Some (kvs, r)"
    note a = a0 [unfolded parse_members.simps [of s]]
    from a obtain q s1 where s: "s = q # s1" and q: "q = 0x22"
      by (cases s) (auto split: if_splits)
    from a s q obtain k s2 where k: "parse_chars s1 = Some (k, s2)" and l2: "length s2 < length s1"
      by (auto split: option.splits if_splits)
    from a s q k l2 obtain c s3 where sk2: "skip_ws s2 = c # s3" and c: "c = 0x3A"
      by (cases "skip_ws s2") (auto split: if_splits)
    from a s q k l2 sk2 c obtain v r0 where v: "parse_value (skip_ws s3) = Some (v, r0)"
      and lt: "length r0 < length s"
      by (auto split: option.splits if_splits)
    show "length r < length s"
    proof (cases "skip_ws r0")
      case Nil
      with a s q k l2 sk2 c v lt show ?thesis by simp
    next
      case (Cons d r')
      have le: "length r' < length r0" using skip_ws_le [of r0] Cons by simp
      consider (close) "d = 0x7D" | (comma) "d \<noteq> 0x7D" "d = 0x2C" | (other) "d \<noteq> 0x7D" "d \<noteq> 0x2C"
        by blast
      then show ?thesis
      proof cases
        case close
        with a s q k l2 sk2 c v lt Cons le show ?thesis by simp
      next
        case comma
        with a s q k l2 sk2 c v lt Cons obtain kvs' where m: "parse_members (skip_ws r') = Some (kvs', r)"
          by (auto simp: cons_fst_eq_Some)
        have "length r < length (skip_ws r')"
          using "3.IH"(2) m s q k l2 sk2 c v lt Cons comma
          by blast
        with skip_ws_le [of r'] le lt show ?thesis by simp
      next
        case other
        with a s q k l2 sk2 c v lt Cons show ?thesis by simp
      qed
    qed
  qed
qed


lemma parse_value_shorter: "parse_value s = Some (v, r) \<Longrightarrow> length r < length s"
  using parse_shorter(1) by blast

lemma parse_elements_unguarded:
  "parse_elements s =
     (case parse_value s of
        None \<Rightarrow> None
      | Some (v, r) \<Rightarrow>
          (case skip_ws r of
             [] \<Rightarrow> None
           | d # r' \<Rightarrow>
               if d = 0x5D then Some ([v], r')
               else if d = 0x2C then cons_fst v (parse_elements (skip_ws r'))
               else None))"
  by (subst parse_elements.simps) (auto split: option.splits dest: parse_value_shorter)

lemma parse_members_unguarded:
  "parse_members s =
     (case s of
        [] \<Rightarrow> None
      | q # s1 \<Rightarrow>
          if q = 0x22 then
            (case parse_chars s1 of
               None \<Rightarrow> None
             | Some (k, s2) \<Rightarrow>
                 (case skip_ws s2 of
                    [] \<Rightarrow> None
                  | c # s3 \<Rightarrow>
                      if c = 0x3A then
                        (case parse_value (skip_ws s3) of
                           None \<Rightarrow> None
                         | Some (v, r) \<Rightarrow>
                             (case skip_ws r of
                                [] \<Rightarrow> None
                              | d # r' \<Rightarrow>
                                  if d = 0x7D then Some ([(k, v)], r')
                                  else if d = 0x2C then
                                    cons_fst (k, v) (parse_members (skip_ws r'))
                                  else None))
                      else None))
          else None)"
proof (cases s)
  case Nil
  then show ?thesis by (subst parse_members.simps) simp
next
  case (Cons q s1)
  have g: "length r < length s"
    if "parse_chars s1 = Some (k, s2)" "skip_ws s2 = c # s3" "parse_value (skip_ws s3) = Some (v, r)"
    for k s2 c s3 v r
  proof -
    have "length r < length (skip_ws s3)" using that(3) by (rule parse_value_shorter)
    moreover have "length (skip_ws s3) \<le> length s3" by (rule skip_ws_le)
    moreover have "length s3 < length s2" using skip_ws_le [of s2] that(2) by simp
    moreover have "length s2 < length s1" using that(1) by (rule parse_chars_shorter)
    ultimately show ?thesis using Cons by simp
  qed
  show ?thesis
    unfolding Cons
    by (subst parse_members.simps)
       (use g Cons in \<open>auto split: option.splits list.splits dest: parse_chars_shorter\<close>)
qed

section \<open>The claims\<close>

lemma ascii_bytes_Nil [simp]: "ascii_bytes [] = []"
  by (simp add: ascii_bytes_def)

lemma ascii_bytes_Cons [simp]: "ascii_bytes (c # cs) = of_char c # ascii_bytes cs"
  by (simp add: ascii_bytes_def)

lemmas encoder_eval = createStreamResponse_def extract_text_def text_unit_def frame_line_def
  content_frame_def done_frame_def error_frame_def JSON_stringify_def QuoteJSONString_def
  quote_code_point_def utf16_encode_def TextEncoder_encode_def utf8_encode_def scalar_value_def
  is_surrogate_def

lemmas decoder_eval = processStream_def new_StreamProcessor_def TextDecoder_decode_def
  new_TextDecoder_def utf8_byte_def utf8_lead_def utf8_init_def utf8_end_def utf16_encode_def
  process_line_def append_content_def get_prop_def JSON_parse_def skip_ws_def is_ws_def
  parse_literal_def parse_number_def parse_integer_def parse_fraction_def parse_exponent_def
  is_digit_def cons_fst_def parse_value.simps parse_elements.simps parse_members.simps hex4_def
  hex_val_def simple_escape_def Let_def

subsection \<open>C1: decoding what the encoder wrote\<close>

text \<open>
  C1. For every finite sequence of non-empty text deltas \<open>ds\<close> yielded by the
  generation source (the units carry exactly these texts, and the source then returns),
  encoding with \<open>createStreamResponse\<close> and decoding the byte arrays it enqueued with
  \<open>processStream\<close> on a new processor calls \<open>onChunk\<close> once per delta, in order and with
  that delta, then \<open>onComplete\<close> once with the concatenation of the deltas, and returns
  that concatenation.
\<close>

theorem decode_after_encode:
  assumes "map extract_text units = map Some ds" and "[] \<notin> set ds"
  shows "snd (processStream nts new_StreamProcessor
                (Some (enqueued (createStreamResponse units Returns), EndOfData))) =
           (map (\<lambda>d. OnChunk (JStr d)) ds @ [OnComplete (concat ds), ReleaseLock], Inr (concat ds))"
proof -
  have "deltas units = ds"
    using assms by (rule deltas_eq)
  then show ?thesis
    using decode_encoded_stream [of "enqueued (createStreamResponse units Returns)" units nts]
    by simp
qed

text \<open>Scenario A of the specification: the source yields "Hello", " ", "world".\<close>

theorem decode_after_encode_scenario_A:
  "\<forall>nts.
     map extract_text [text_unit (ascii ''Hello''), text_unit (ascii '' ''), text_unit (ascii ''world'')]
       = map Some [ascii ''Hello'', ascii '' '', ascii ''world''] \<and>
     [] \<notin> set [ascii ''Hello'', ascii '' '', ascii ''world''] \<and>
     snd (processStream nts new_StreamProcessor
            (Some (enqueued (createStreamResponse
               [text_unit (ascii ''Hello''), text_unit (ascii '' ''), text_unit (ascii ''world'')]
               Returns), EndOfData))) =
       ([OnChunk (JStr (ascii ''Hello'')), OnChunk (JStr (ascii '' '')), OnChunk (JStr (ascii ''world'')),
         OnComplete (ascii ''Hello world''), ReleaseLock],
        Inr (ascii ''Hello world''))"
proof (intro allI conjI)
  fix nts :: "jsstring \<Rightarrow> jsstring"
  show h1: "map extract_text [text_unit (ascii ''Hello''), text_unit (ascii '' ''), text_unit (ascii ''world'')]
       = map Some [ascii ''Hello'', ascii '' '', ascii ''world'']"
    by (simp add: extract_text_def text_unit_def)
  show h2: "[] \<notin> set [ascii ''Hello'', ascii '' '', ascii ''world'']"
    by simp
  have e: "(map (\<lambda>d. OnChunk (JStr d)) [ascii ''Hello'', ascii '' '', ascii ''world''] @
              [OnComplete (concat [ascii ''Hello'', ascii '' '', ascii ''world'']), ReleaseLock],
            Inr (concat [ascii ''Hello'', ascii '' '', ascii ''world''])) =
           ([OnChunk (JStr (ascii ''Hello'')), OnChunk (JStr (ascii '' '')), OnChunk (JStr (ascii ''world'')),
             OnComplete (ascii ''Hello world''), ReleaseLock],
            Inr (ascii ''Hello world'') :: thrown + jsstring)"
    by simp
  show "snd (processStream nts new_StreamProcessor
            (Some (enqueued (createStreamResponse
               [text_unit (ascii ''Hello''), text_unit (ascii '' ''), text_unit (ascii ''world'')]
               Returns), EndOfData))) =
       ([OnChunk (JStr (ascii ''Hello'')), OnChunk (JStr (ascii '' '')), OnChunk (JStr (ascii ''world'')),
         OnComplete (ascii ''Hello world''), ReleaseLock],
        Inr (ascii ''Hello world''))"
    by (rule trans [OF decode_after_encode [OF h1 h2] e])
qed

subsection \<open>C3: chunk boundaries do not matter\<close>

text \<open>
  C3. For every byte stream produced by \<open>createStreamResponse\<close> and every partition
  of it into consecutive chunks, at any byte offsets, \<open>processStream\<close> on a new processor
  makes the same calls and returns the same value as when the whole stream arrives in
  one piece; and the lines it parses are exactly the frames that were written, each
  followed by an empty line: no character is corrupted, duplicated or lost.
\<close>

theorem chunk_boundary_invariance:
  assumes "concat chunks = concat (enqueued (createStreamResponse units ending))"
  shows "snd (processStream nts new_StreamProcessor (Some (chunks, EndOfData))) =
           snd (processStream nts new_StreamProcessor
                  (Some ([concat (enqueued (createStreamResponse units ending))], EndOfData))) \<and>
         snd (processStream nts new_StreamProcessor (Some (chunks, EndOfData))) =
           outcome EndOfData
             (process_lines nts (concat (map (\<lambda>p. [frame_text p, []]) (frames_of units ending))) ([], []))"
  using assms by (simp add: processStream_fresh complete_lines_encoded)

text \<open>
  The stream of a source that yields the one delta U+00E9, cut between the two bytes
  \<open>C3 A9\<close> of that character.
\<close>

theorem chunk_boundary_invariance_witness:
  "\<forall>nts.
     concat [ascii_bytes ''data: {\"content\":\"'' @ [0xC3],
             [0xA9] @ ascii_bytes ''\",\"done\":false}'' @ [0x0A, 0x0A] @
               ascii_bytes ''data: {\"content\":\"\",\"done\":true}'' @ [0x0A, 0x0A]]
       = concat (enqueued (createStreamResponse [text_unit [0xE9]] Returns)) \<and>
     snd (processStream nts new_StreamProcessor
            (Some ([ascii_bytes ''data: {\"content\":\"'' @ [0xC3],
                    [0xA9] @ ascii_bytes ''\",\"done\":false}'' @ [0x0A, 0x0A] @
                      ascii_bytes ''data: {\"content\":\"\",\"done\":true}'' @ [0x0A, 0x0A]],
                   EndOfData))) =
       snd (processStream nts new_StreamProcessor
              (Some ([concat (enqueued (createStreamResponse [text_unit [0xE9]] Returns))], EndOfData)))"
proof (intro allI conjI)
  fix nts :: "jsstring \<Rightarrow> jsstring"
  show h: "concat [ascii_bytes ''data: {\"content\":\"'' @ [0xC3],
             [0xA9] @ ascii_bytes ''\",\"done\":false}'' @ [0x0A, 0x0A] @
               ascii_bytes ''data: {\"content\":\"\",\"done\":true}'' @ [0x0A, 0x0A]]
       = concat (enqueued (createStreamResponse [text_unit [0xE9]] Returns))"
    by (simp add: encoder_eval)
  show "snd (processStream nts new_StreamProcessor
            (Some ([ascii_bytes ''data: {\"content\":\"'' @ [0xC3],
                    [0xA9] @ ascii_bytes ''\",\"done\":false}'' @ [0x0A, 0x0A] @
                      ascii_bytes ''data: {\"content\":\"\",\"done\":true}'' @ [0x0A, 0x0A]],
                   EndOfData))) =
       snd (processStream nts new_StreamProcessor
              (Some ([concat (enqueued (createStreamResponse [text_unit [0xE9]] Returns))], EndOfData)))"
    by (rule conjunct1 [OF chunk_boundary_invariance [OF h]])
qed

subsection \<open>C5: one terminal frame, then one close\<close>

text \<open>
  The deltas are the non-empty texts of the units, and the three object literals are
  serialized to the lines below.
\<close>

lemma deltas_map_filter: "deltas units = filter (\<lambda>d. d \<noteq> []) (List.map_filter extract_text units)"
  by (induction units) (auto simp: List.map_filter_simps split: option.splits)

lemma quoted_keys:
  "QuoteJSONString (ascii ''content'') = ascii ''\"content\"''"
  "QuoteJSONString (ascii ''done'') = ascii ''\"done\"''"
  "QuoteJSONString (ascii ''error'') = ascii ''\"error\"''"
  "QuoteJSONString [] = ascii ''\"\"''"
  by (simp_all add: QuoteJSONString_def quote_code_point_def utf16_encode_def is_surrogate_def)

lemma JSON_stringify_content_frame:
  "JSON_stringify (content_frame d) = ascii ''{\"content\":'' @ QuoteJSONString d @ ascii '',\"done\":false}''"
  using quoted_keys by (simp add: JSON_stringify_def content_frame_def)

lemma JSON_stringify_done_frame:
  "JSON_stringify done_frame = ascii ''{\"content\":\"\",\"done\":true}''"
  using quoted_keys by (simp add: JSON_stringify_def done_frame_def)

lemma JSON_stringify_error_frame:
  "JSON_stringify (error_frame e) =
     ascii ''{\"error\":'' @
     QuoteJSONString (case e of ErrorObject m \<Rightarrow> m | NotAnError \<Rightarrow> ascii ''Streaming failed'') @
     ascii '',\"done\":true}''"
  using quoted_keys by (simp add: JSON_stringify_def error_frame_def)

lemma frame_line_terminal_frame:
  "frame_line (terminal_frame ending) =
     (case ending of
        Returns \<Rightarrow> ascii ''data: {\"content\":\"\",\"done\":true}'' @ [0x0A, 0x0A]
      | Throws e \<Rightarrow>
          ascii ''data: {\"error\":'' @
          QuoteJSONString (case e of ErrorObject m \<Rightarrow> m | NotAnError \<Rightarrow> ascii ''Streaming failed'') @
          ascii '',\"done\":true}'' @ [0x0A, 0x0A])"
  by (cases ending)
     (simp_all add: terminal_frame_def frame_line_def JSON_stringify_done_frame
        JSON_stringify_error_frame)

lemma frame_line_content_frame:
  "frame_line (content_frame d) =
     ascii ''data: {\"content\":'' @ QuoteJSONString d @ ascii '',\"done\":false}'' @ [0x0A, 0x0A]"
  by (simp add: frame_line_def JSON_stringify_content_frame)

text \<open>
  C5. Whether the source returns (also without any delta) or throws while it is pulled,
  \<open>createStreamResponse\<close> enqueues the content frames of the deltas, then exactly one
  terminal frame (\<open>{content: '', done: true}\<close> on return, \<open>{error: message, done: true}\<close>
  on failure), which is the last frame written, and closes the transport exactly once,
  after that frame. The bytes on the transport decode to the text of these lines, each
  followed by an empty line; the payload of the terminal line parses to a frame with
  \<open>done = true\<close>, and the payload of every line before it to a frame with
  \<open>done = false\<close>.
\<close>

theorem one_terminal_frame_then_close:
  "createStreamResponse units ending =
     map (\<lambda>d. Enqueue (TextEncoder_encode
                (ascii ''data: {\"content\":'' @ QuoteJSONString d @ ascii '',\"done\":false}'' @
                 [0x0A, 0x0A])))
       (filter (\<lambda>d. d \<noteq> []) (List.map_filter extract_text units)) @
     [Enqueue (TextEncoder_encode
        (case ending of
           Returns \<Rightarrow> ascii ''data: {\"content\":\"\",\"done\":true}'' @ [0x0A, 0x0A]
         | Throws e \<Rightarrow>
             ascii ''data: {\"error\":'' @
             QuoteJSONString (case e of ErrorObject m \<Rightarrow> m | NotAnError \<Rightarrow> ascii ''Streaming failed'') @
             ascii '',\"done\":true}'' @ [0x0A, 0x0A])),
      Close] \<and>
   decode_text (concat (enqueued (createStreamResponse units ending))) =
     concat (map (\<lambda>d. ascii ''data: {\"content\":'' @ QuoteJSONString d @ ascii '',\"done\":false}'' @
                       [0x0A, 0x0A])
               (filter (\<lambda>d. d \<noteq> []) (List.map_filter extract_text units))) @
     (case ending of
        Returns \<Rightarrow> ascii ''data: {\"content\":\"\",\"done\":true}'' @ [0x0A, 0x0A]
      | Throws e \<Rightarrow>
          ascii ''data: {\"error\":'' @
          QuoteJSONString (case e of ErrorObject m \<Rightarrow> m | NotAnError \<Rightarrow> ascii ''Streaming failed'') @
          ascii '',\"done\":true}'' @ [0x0A, 0x0A]) \<and>
   JSON_parse (ascii ''{\"content\":'' @ QuoteJSONString d @ ascii '',\"done\":false}'') =
     Some (JObj [(ascii ''content'', JStr d), (ascii ''done'', JBool False)]) \<and>
   JSON_parse (ascii ''{\"content\":\"\",\"done\":true}'') =
     Some (JObj [(ascii ''content'', JStr []), (ascii ''done'', JBool True)]) \<and>
   JSON_parse (ascii ''{\"error\":'' @ QuoteJSONString m @ ascii '',\"done\":true}'') =
     Some (JObj [(ascii ''error'', JStr m), (ascii ''done'', JBool True)])"
proof (intro conjI)
  let ?ds = "filter (\<lambda>d. d \<noteq> []) (List.map_filter extract_text units)"
  have fr: "map frame_line (frames_of units ending) =
      map (\<lambda>d. ascii ''data: {\"content\":'' @ QuoteJSONString d @ ascii '',\"done\":false}'' @
                 [0x0A, 0x0A]) ?ds @
      [frame_line (terminal_frame ending)]"
    by (simp add: frames_of_def deltas_map_filter frame_line_content_frame comp_def)
  have en: "map (\<lambda>p. Enqueue (TextEncoder_encode (frame_line p))) (frames_of units ending) =
      map (\<lambda>t. Enqueue (TextEncoder_encode t)) (map frame_line (frames_of units ending))"
    by (simp add: comp_def)
  show "createStreamResponse units ending =
     map (\<lambda>d. Enqueue (TextEncoder_encode
                (ascii ''data: {\"content\":'' @ QuoteJSONString d @ ascii '',\"done\":false}'' @
                 [0x0A, 0x0A]))) ?ds @
     [Enqueue (TextEncoder_encode
        (case ending of
           Returns \<Rightarrow> ascii ''data: {\"content\":\"\",\"done\":true}'' @ [0x0A, 0x0A]
         | Throws e \<Rightarrow>
             ascii ''data: {\"error\":'' @
             QuoteJSONString (case e of ErrorObject m \<Rightarrow> m | NotAnError \<Rightarrow> ascii ''Streaming failed'') @
             ascii '',\"done\":true}'' @ [0x0A, 0x0A])),
      Close]"
    unfolding createStreamResponse_frames en fr frame_line_terminal_frame
    by (simp add: comp_def)
  have "decode_text (concat (enqueued (createStreamResponse units ending))) =
      concat (map frame_line (frames_of units ending))"
    by (simp only: enqueued_createStreamResponse decode_text_frames)
  then show "decode_text (concat (enqueued (createStreamResponse units ending))) =
     concat (map (\<lambda>d. ascii ''data: {\"content\":'' @ QuoteJSONString d @ ascii '',\"done\":false}'' @
                       [0x0A, 0x0A]) ?ds) @
     (case ending of
        Returns \<Rightarrow> ascii ''data: {\"content\":\"\",\"done\":true}'' @ [0x0A, 0x0A]
      | Throws e \<Rightarrow>
          ascii ''data: {\"error\":'' @
          QuoteJSONString (case e of ErrorObject m \<Rightarrow> m | NotAnError \<Rightarrow> ascii ''Streaming failed'') @
          ascii '',\"done\":true}'' @ [0x0A, 0x0A])"
    unfolding fr frame_line_terminal_frame by simp
  show "JSON_parse (ascii ''{\"content\":'' @ QuoteJSONString d @ ascii '',\"done\":false}'') =
     Some (JObj [(ascii ''content'', JStr d), (ascii ''done'', JBool False)])"
    using JSON_parse_stringify [of "content_frame d"] unfolding JSON_stringify_content_frame
    by (simp add: content_frame_def)
  show "JSON_parse (ascii ''{\"content\":\"\",\"done\":true}'') =
     Some (JObj [(ascii ''content'', JStr []), (ascii ''done'', JBool True)])"
    using JSON_parse_stringify [of done_frame] unfolding JSON_stringify_done_frame
    by (simp add: done_frame_def)
  show "JSON_parse (ascii ''{\"error\":'' @ QuoteJSONString m @ ascii '',\"done\":true}'') =
     Some (JObj [(ascii ''error'', JStr m), (ascii ''done'', JBool True)])"
    using JSON_parse_stringify [of "error_frame (ErrorObject m)"]
    unfolding JSON_stringify_error_frame
    by (simp add: error_frame_def)
qed

text \<open>
  The bytes enqueued for a source that returns without a delta, and for the source of
  Scenario B, which yields "partial" and then throws an error with the message "boom".
\<close>

theorem one_terminal_frame_then_close_examples:
  "createStreamResponse [] Returns =
     [Enqueue (ascii_bytes ''data: {\"content\":\"\",\"done\":true}'' @ [0x0A, 0x0A]), Close] \<and>
   createStreamResponse [text_unit (ascii ''partial'')] (Throws (ErrorObject (ascii ''boom''))) =
     [Enqueue (ascii_bytes ''data: {\"content\":\"partial\",\"done\":false}'' @ [0x0A, 0x0A]),
      Enqueue (ascii_bytes ''data: {\"error\":\"boom\",\"done\":true}'' @ [0x0A, 0x0A]),
      Close]"
proof (intro conjI)
  have e1: "map (\<lambda>d. Enqueue (TextEncoder_encode
                (ascii ''data: {\"content\":'' @ QuoteJSONString d @ ascii '',\"done\":false}'' @
                 [0x0A, 0x0A])))
       (filter (\<lambda>d. d \<noteq> []) (List.map_filter extract_text [])) @
     [Enqueue (TextEncoder_encode
        (case Returns of
           Returns \<Rightarrow> ascii ''data: {\"content\":\"\",\"done\":true}'' @ [0x0A, 0x0A]
         | Throws e \<Rightarrow>
             ascii ''data: {\"error\":'' @
             QuoteJSONString (case e of ErrorObject m \<Rightarrow> m | NotAnError \<Rightarrow> ascii ''Streaming failed'') @
             ascii '',\"done\":true}'' @ [0x0A, 0x0A])),
      Close] =
     [Enqueue (ascii_bytes ''data: {\"content\":\"\",\"done\":true}'' @ [0x0A, 0x0A]), Close]"
    by (simp add: List.map_filter_simps TextEncoder_encode_def utf8_encode_def scalar_value_def
        is_surrogate_def)
  show "createStreamResponse [] Returns =
     [Enqueue (ascii_bytes ''data: {\"content\":\"\",\"done\":true}'' @ [0x0A, 0x0A]), Close]"
    by (rule trans [OF conjunct1 [OF one_terminal_frame_then_close] e1])
  have e2: "map (\<lambda>d. Enqueue (TextEncoder_encode
                (ascii ''data: {\"content\":'' @ QuoteJSONString d @ ascii '',\"done\":false}'' @
                 [0x0A, 0x0A])))
       (filter (\<lambda>d. d \<noteq> []) (List.map_filter extract_text [text_unit (ascii ''partial'')])) @
     [Enqueue (TextEncoder_encode
        (case Throws (ErrorObject (ascii ''boom'')) of
           Returns \<Rightarrow> ascii ''data: {\"content\":\"\",\"done\":true}'' @ [0x0A, 0x0A]
         | Throws e \<Rightarrow>
             ascii ''data: {\"error\":'' @
             QuoteJSONString (case e of ErrorObject m \<Rightarrow> m | NotAnError \<Rightarrow> ascii ''Streaming failed'') @
             ascii '',\"done\":true}'' @ [0x0A, 0x0A])),
      Close] =
     [Enqueue (ascii_bytes ''data: {\"content\":\"partial\",\"done\":false}'' @ [0x0A, 0x0A]),
      Enqueue (ascii_bytes ''data: {\"error\":\"boom\",\"done\":true}'' @ [0x0A, 0x0A]),
      Close]"
    by (simp add: List.map_filter_simps extract_text_def text_unit_def QuoteJSONString_def
        quote_code_point_def utf16_encode_def TextEncoder_encode_def utf8_encode_def
        scalar_value_def is_surrogate_def)
  show "createStreamResponse [text_unit (ascii ''partial'')] (Throws (ErrorObject (ascii ''boom''))) =
     [Enqueue (ascii_bytes ''data: {\"content\":\"partial\",\"done\":false}'' @ [0x0A, 0x0A]),
      Enqueue (ascii_bytes ''data: {\"error\":\"boom\",\"done\":true}'' @ [0x0A, 0x0A]),
      Close]"
    by (rule trans [OF conjunct1 [OF one_terminal_frame_then_close] e2])
qed

subsection \<open>C9: one frame per unit that carries a text\<close>


subsection \<open>C6: end of data without a terminal frame\<close>

text \<open>
  C6. When the read loop uses up the chunks without having returned on a terminal frame
  and the transport then signals end-of-data, \<open>processStream\<close> calls \<open>onComplete\<close>
  with the text accumulated so far and returns that text: it neither throws nor calls
  \<open>onError\<close>. The calls made before are \<open>onChunk\<close> calls only, so \<open>onComplete\<close> is
  called exactly once, and the text is the concatenation of what was appended for them.
\<close>

theorem end_of_data_completes:
  assumes "read_loop nts chunks sp ([], []) = ((sp', (fullText, evs)), False)"
  shows "processStream nts sp (Some (chunks, EndOfData)) =
           (sp', evs @ [OnComplete fullText, ReleaseLock], Inr fullText) \<and>
         list_all is_chunk evs \<and>
         fullText = concat (map (chunk_text nts) evs)"
proof -
  have "accumulated nts ([], [])"
    by (simp add: accumulated_def)
  from read_loop_accumulated [OF this assms] have "accumulated nts (fullText, evs)" .
  then show ?thesis
    using assms by (simp add: processStream_def accumulated_def)
qed

text \<open>
  Scenario C of the specification: the transport closes after the content frame of
  "Hello", before any terminal frame.
\<close>

theorem end_of_data_completes_scenario_C:
  "\<forall>nts.
     read_loop nts [ascii_bytes ''data: {\"content\":\"Hello\",\"done\":false}'' @ [0x0A, 0x0A]]
        new_StreamProcessor ([], []) =
       ((\<lparr>decoder = \<lparr>utf8_state = utf8_init, BOM_seen = True, do_not_flush = True\<rparr>, buffer = []\<rparr>,
         (ascii ''Hello'', [OnChunk (JStr (ascii ''Hello''))])), False) \<and>
     processStream nts new_StreamProcessor
        (Some ([ascii_bytes ''data: {\"content\":\"Hello\",\"done\":false}'' @ [0x0A, 0x0A]], EndOfData)) =
       (\<lparr>decoder = \<lparr>utf8_state = utf8_init, BOM_seen = True, do_not_flush = True\<rparr>, buffer = []\<rparr>,
        [OnChunk (JStr (ascii ''Hello'')), OnComplete (ascii ''Hello''), ReleaseLock],
        Inr (ascii ''Hello''))"
proof (intro allI)
  fix nts :: "jsstring \<Rightarrow> jsstring"
  have h: "read_loop nts [ascii_bytes ''data: {\"content\":\"Hello\",\"done\":false}'' @ [0x0A, 0x0A]]
        new_StreamProcessor ([], []) =
       ((\<lparr>decoder = \<lparr>utf8_state = utf8_init, BOM_seen = True, do_not_flush = True\<rparr>, buffer = []\<rparr>,
         (ascii ''Hello'', [OnChunk (JStr (ascii ''Hello''))])), False)"
    by (simp add: decoder_eval)
  from conjunct1 [OF end_of_data_completes [OF h]] h
  show "read_loop nts [ascii_bytes ''data: {\"content\":\"Hello\",\"done\":false}'' @ [0x0A, 0x0A]]
        new_StreamProcessor ([], []) =
       ((\<lparr>decoder = \<lparr>utf8_state = utf8_init, BOM_seen = True, do_not_flush = True\<rparr>, buffer = []\<rparr>,
         (ascii ''Hello'', [OnChunk (JStr (ascii ''Hello''))])), False) \<and>
     processStream nts new_StreamProcessor
        (Some ([ascii_bytes ''data: {\"content\":\"Hello\",\"done\":false}'' @ [0x0A, 0x0A]], EndOfData)) =
       (\<lparr>decoder = \<lparr>utf8_state = utf8_init, BOM_seen = True, do_not_flush = True\<rparr>, buffer = []\<rparr>,
        [OnChunk (JStr (ascii ''Hello'')), OnComplete (ascii ''Hello''), ReleaseLock],
        Inr (ascii ''Hello''))"
    by simp
qed

subsection \<open>C8: malformed lines are skipped\<close>

text \<open>
  C8. For every input stream, \<open>processStream\<close> makes the calls and returns the value
  that the stream's lines make once every line that cannot be parsed as a JSON frame is
  removed: such a line changes nothing and stops nothing, and every frame after it is
  processed as if the line had not been there.
\<close>

theorem malformed_lines_are_skipped:
  "snd (processStream nts new_StreamProcessor (Some (chunks, ending))) =
     outcome ending
       (process_lines nts
          (filter (\<lambda>l. \<not> malformed l) (complete_lines (decode_text (concat chunks)))) ([], []))"
  by (simp only: processStream_fresh process_lines_filter_malformed)

text \<open>
  A stream of two lines, \<open>data: {oops\<close> and a frame with the content "ok", then
  end-of-data.
\<close>

theorem malformed_lines_are_skipped_example:
  "\<forall>nts.
     snd (processStream nts new_StreamProcessor
            (Some ([ascii_bytes ''data: {oops'' @ [0x0A] @
                    ascii_bytes ''data: {\"content\":\"ok\"}'' @ [0x0A]], EndOfData))) =
       ([OnChunk (JStr (ascii ''ok'')), OnComplete (ascii ''ok''), ReleaseLock], Inr (ascii ''ok''))"
proof (intro allI)
  fix nts :: "jsstring \<Rightarrow> jsstring"
  let ?chunks = "[ascii_bytes ''data: {oops'' @ [0x0A] @ ascii_bytes ''data: {\"content\":\"ok\"}'' @ [0x0A]]"
  have t: "complete_lines (decode_text (concat ?chunks)) =
      [ascii ''data: {oops'', ascii ''data: {\"content\":\"ok\"}'']"
    by (simp add: complete_lines_def decode_text_def decoder_eval)
  have m: "malformed (ascii ''data: {oops'')" "\<not> malformed (ascii ''data: {\"content\":\"ok\"}'')"
    by (simp_all add: malformed_def decoder_eval)
  have p: "process_lines nts [ascii ''data: {\"content\":\"ok\"}''] ([], []) =
      ((ascii ''ok'', [OnChunk (JStr (ascii ''ok''))]), False)"
    by (simp add: decoder_eval)
  have "outcome EndOfData
       (process_lines nts
          (filter (\<lambda>l. \<not> malformed l) (complete_lines (decode_text (concat ?chunks)))) ([], [])) =
       ([OnChunk (JStr (ascii ''ok'')), OnComplete (ascii ''ok''), ReleaseLock], Inr (ascii ''ok''))"
    unfolding t using m p by (simp add: outcome_def)
  with malformed_lines_are_skipped [of nts ?chunks EndOfData]
  show "snd (processStream nts new_StreamProcessor (Some (?chunks, EndOfData))) =
       ([OnChunk (JStr (ascii ''ok'')), OnComplete (ascii ''ok''), ReleaseLock], Inr (ascii ''ok''))"
    by (rule trans)
qed

subsection \<open>C10: an unterminated last line is kept, not discarded\<close>

text \<open>
  What a call on any processor parses, and what it leaves in the buffer when it uses up
  its chunks.
\<close>

lemma processStream_lines:
  assumes "0x0A \<notin> set (buffer sp)"
  shows "snd (processStream nts sp (Some (chunks, ending))) =
     outcome ending
       (process_lines nts
          (complete_lines (buffer sp @ snd (TextDecoder_decode (decoder sp) (concat chunks) True)))
          ([], []))"
proof -
  obtain sp' ft evs fin where r: "read_loop nts chunks sp ([], []) = ((sp', (ft, evs)), fin)"
    by (metis surj_pair)
  have "process_lines nts
      (complete_lines (buffer sp @ snd (TextDecoder_decode (decoder sp) (concat chunks) True)))
      ([], []) = ((ft, evs), fin)"
    using read_loop_lines [OF assms, of nts chunks "([], [])"] r
    by (simp add: complete_lines_def)
  then show ?thesis
    using r by (simp add: processStream_def outcome_def Let_def split: read_end.splits bool.splits)
qed

lemma processStream_buffer:
  assumes "0x0A \<notin> set (buffer sp)"
    and "\<not> snd (process_lines nts
          (complete_lines (buffer sp @ snd (TextDecoder_decode (decoder sp) (concat chunks) True)))
          ([], []))"
  shows "buffer (fst (processStream nts sp (Some (chunks, ending)))) =
     last (split_newline (buffer sp @ snd (TextDecoder_decode (decoder sp) (concat chunks) True)))"
proof -
  obtain sp' st' fin where r: "read_loop nts chunks sp ([], []) = ((sp', st'), fin)"
    by (metis surj_pair)
  have "process_lines nts
      (complete_lines (buffer sp @ snd (TextDecoder_decode (decoder sp) (concat chunks) True)))
      ([], []) = (st', fin)"
    using read_loop_lines [OF assms(1), of nts chunks "([], [])"] r
    by (simp add: complete_lines_def)
  with assms(2) have f: "fin = False" by simp
  from read_loop_buffer [OF assms(1) r [unfolded f]]
  have "buffer sp' =
      last (split_newline (buffer sp @ snd (TextDecoder_decode (decoder sp) (concat chunks) True)))" .
  then show ?thesis
    using r f by (cases st') (simp add: processStream_def Let_def split: read_end.splits)
qed

text \<open>
  C10 claims that a partial last line is never parsed as a frame and is silently
  discarded. Within the call it is not parsed, but it is not discarded: it stays in
  the buffer of the processor. Below, the input of a first call ends after the frame
  of "Hi" and a whole frame of "lost" that lacks only its line feed: the call delivers
  "Hi" and leaves the frame of "lost" in the buffer; a second call on the same
  processor, whose input is one line feed, parses that frame and delivers "lost".
\<close>

theorem partial_line_is_parsed_by_the_next_call:
  "\<forall>nts.
     snd (processStream nts new_StreamProcessor
            (Some ([ascii_bytes ''data: {\"content\":\"Hi\",\"done\":false}'' @ [0x0A, 0x0A] @
                    ascii_bytes ''data: {\"content\":\"lost\",\"done\":false}''], EndOfData))) =
       ([OnChunk (JStr (ascii ''Hi'')), OnComplete (ascii ''Hi''), ReleaseLock], Inr (ascii ''Hi'')) \<and>
     buffer (fst (processStream nts new_StreamProcessor
            (Some ([ascii_bytes ''data: {\"content\":\"Hi\",\"done\":false}'' @ [0x0A, 0x0A] @
                    ascii_bytes ''data: {\"content\":\"lost\",\"done\":false}''], EndOfData)))) =
       ascii ''data: {\"content\":\"lost\",\"done\":false}'' \<and>
     snd (processStream nts
            (fst (processStream nts new_StreamProcessor
               (Some ([ascii_bytes ''data: {\"content\":\"Hi\",\"done\":false}'' @ [0x0A, 0x0A] @
                       ascii_bytes ''data: {\"content\":\"lost\",\"done\":false}''], EndOfData))))
            (Some ([[0x0A]], EndOfData))) =
       ([OnChunk (JStr (ascii ''lost'')), OnComplete (ascii ''lost''), ReleaseLock],
        Inr (ascii ''lost''))"
proof (intro allI)
  fix nts :: "jsstring \<Rightarrow> jsstring"
  have a: "processStream nts new_StreamProcessor
            (Some ([ascii_bytes ''data: {\"content\":\"Hi\",\"done\":false}'' @ [0x0A, 0x0A] @
                    ascii_bytes ''data: {\"content\":\"lost\",\"done\":false}''], EndOfData)) =
      (\<lparr>decoder = \<lparr>utf8_state = utf8_init, BOM_seen = True, do_not_flush = True\<rparr>,
         buffer = ascii ''data: {\"content\":\"lost\",\"done\":false}''\<rparr>,
       [OnChunk (JStr (ascii ''Hi'')), OnComplete (ascii ''Hi''), ReleaseLock], Inr (ascii ''Hi''))"
    by (simp add: decoder_eval)
  have b: "snd (processStream nts
        \<lparr>decoder = \<lparr>utf8_state = utf8_init, BOM_seen = True, do_not_flush = True\<rparr>,
          buffer = ascii ''data: {\"content\":\"lost\",\"done\":false}''\<rparr>
        (Some ([[0x0A]], EndOfData))) =
      ([OnChunk (JStr (ascii ''lost'')), OnComplete (ascii ''lost''), ReleaseLock],
       Inr (ascii ''lost''))"
    by (simp add: decoder_eval)
  show "snd (processStream nts new_StreamProcessor
            (Some ([ascii_bytes ''data: {\"content\":\"Hi\",\"done\":false}'' @ [0x0A, 0x0A] @
                    ascii_bytes ''data: {\"content\":\"lost\",\"done\":false}''], EndOfData))) =
       ([OnChunk (JStr (ascii ''Hi'')), OnComplete (ascii ''Hi''), ReleaseLock], Inr (ascii ''Hi'')) \<and>
     buffer (fst (processStream nts new_StreamProcessor
            (Some ([ascii_bytes ''data: {\"content\":\"Hi\",\"done\":false}'' @ [0x0A, 0x0A] @
                    ascii_bytes ''data: {\"content\":\"lost\",\"done\":false}''], EndOfData)))) =
       ascii ''data: {\"content\":\"lost\",\"done\":false}'' \<and>
     snd (processStream nts
            (fst (processStream nts new_StreamProcessor
               (Some ([ascii_bytes ''data: {\"content\":\"Hi\",\"done\":false}'' @ [0x0A, 0x0A] @
                       ascii_bytes ''data: {\"content\":\"lost\",\"done\":false}''], EndOfData))))
            (Some ([[0x0A]], EndOfData))) =
       ([OnChunk (JStr (ascii ''lost'')), OnComplete (ascii ''lost''), ReleaseLock],
        Inr (ascii ''lost''))"
    unfolding a using b by simp
qed

text \<open>
  C10, amended. If the text decoded from the input of a call on a new processor consists
  of the complete lines \<open>ls\<close> followed by a last line \<open>partial\<close> with no line feed
  after it, the call makes the calls and returns the value that the lines \<open>ls\<close> alone
  make: the partial line is not parsed by that call and contributes nothing to its
  accumulator, to the argument of its \<open>onComplete\<close> or to the string it returns. The
  line is not discarded: when the call ends without having returned on a terminal frame,
  the partial line is what it leaves in the buffer, and the next call on the same
  processor parses the complete lines of that line followed by the text it decodes.
\<close>

theorem partial_last_line_is_kept:
  assumes "decode_text (concat chunks) = concat (map (\<lambda>l. l @ [0x0A]) ls) @ partial"
    and "0x0A \<notin> set partial"
    and "\<forall>l \<in> set ls. 0x0A \<notin> set l"
  shows "snd (processStream nts new_StreamProcessor (Some (chunks, EndOfData))) =
           outcome EndOfData (process_lines nts ls ([], [])) \<and>
         (\<not> snd (process_lines nts ls ([], [])) \<longrightarrow>
            buffer (fst (processStream nts new_StreamProcessor (Some (chunks, EndOfData)))) = partial \<and>
            snd (processStream nts
                   (fst (processStream nts new_StreamProcessor (Some (chunks, EndOfData))))
                   (Some (chunks', ending))) =
              outcome ending
                (process_lines nts
                   (complete_lines
                      (partial @
                       snd (TextDecoder_decode
                              (decoder (fst (processStream nts new_StreamProcessor
                                               (Some (chunks, EndOfData)))))
                              (concat chunks') True)))
                   ([], [])))"
proof (intro conjI impI)
  let ?sp = "fst (processStream nts new_StreamProcessor (Some (chunks, EndOfData)))"
  have sl: "split_newline (decode_text (concat chunks)) = ls @ [partial]"
    using assms by (simp add: split_newline_lines)
  show "snd (processStream nts new_StreamProcessor (Some (chunks, EndOfData))) =
      outcome EndOfData (process_lines nts ls ([], []))"
    by (simp add: processStream_fresh complete_lines_def sl)
  assume n: "\<not> snd (process_lines nts ls ([], []))"
  have nb: "0x0A \<notin> set (buffer new_StreamProcessor)"
    by (simp add: new_StreamProcessor_def)
  have tx: "buffer new_StreamProcessor @
      snd (TextDecoder_decode (decoder new_StreamProcessor) (concat chunks) True) =
      decode_text (concat chunks)"
    by (simp add: new_StreamProcessor_def decode_text_def)
  have "buffer ?sp = last (split_newline (decode_text (concat chunks)))"
    using processStream_buffer [OF nb, of nts chunks EndOfData] n
    unfolding tx by (simp add: complete_lines_def sl)
  then show b: "buffer ?sp = partial"
    by (simp add: sl)
  have "0x0A \<notin> set (buffer ?sp)"
    using b assms(2) by simp
  from processStream_lines [OF this, of nts chunks' ending]
  show "snd (processStream nts ?sp (Some (chunks', ending))) =
      outcome ending
        (process_lines nts
           (complete_lines (partial @ snd (TextDecoder_decode (decoder ?sp) (concat chunks') True)))
           ([], []))"
    unfolding b .
qed

text \<open>
  The two calls of the example above: the frame of "Hi" with its empty line, then a whole
  frame of "lost" that lacks only its line feed; then one line feed.
\<close>

theorem partial_last_line_is_kept_witness:
  "\<forall>nts.
     decode_text (concat [ascii_bytes ''data: {\"content\":\"Hi\",\"done\":false}'' @ [0x0A, 0x0A] @
                          ascii_bytes ''data: {\"content\":\"lost\",\"done\":false}'']) =
       concat (map (\<lambda>l. l @ [0x0A]) [ascii ''data: {\"content\":\"Hi\",\"done\":false}'', []]) @
         ascii ''data: {\"content\":\"lost\",\"done\":false}'' \<and>
     0x0A \<notin> set (ascii ''data: {\"content\":\"lost\",\"done\":false}'') \<and>
     0x0A \<notin> set (ascii ''data: {\"content\":\"Hi\",\"done\":false}'') \<and>
     0x0A \<notin> set ([] :: jsstring) \<and>
     \<not> snd (process_lines nts [ascii ''data: {\"content\":\"Hi\",\"done\":false}'', []] ([], [])) \<and>
     snd (processStream nts new_StreamProcessor
            (Some ([ascii_bytes ''data: {\"content\":\"Hi\",\"done\":false}'' @ [0x0A, 0x0A] @
                    ascii_bytes ''data: {\"content\":\"lost\",\"done\":false}''], EndOfData))) =
       ([OnChunk (JStr (ascii ''Hi'')), OnComplete (ascii ''Hi''), ReleaseLock], Inr (ascii ''Hi'')) \<and>
     buffer (fst (processStream nts new_StreamProcessor
            (Some ([ascii_bytes ''data: {\"content\":\"Hi\",\"done\":false}'' @ [0x0A, 0x0A] @
                    ascii_bytes ''data: {\"content\":\"lost\",\"done\":false}''], EndOfData)))) =
       ascii ''data: {\"content\":\"lost\",\"done\":false}''"
proof (intro allI)
  fix nts :: "jsstring \<Rightarrow> jsstring"
  let ?chunks = "[ascii_bytes ''data: {\"content\":\"Hi\",\"done\":false}'' @ [0x0A, 0x0A] @
                    ascii_bytes ''data: {\"content\":\"lost\",\"done\":false}'']"
  let ?ls = "[ascii ''data: {\"content\":\"Hi\",\"done\":false}'', []]"
  let ?partial = "ascii ''data: {\"content\":\"lost\",\"done\":false}''"
  have h1: "decode_text (concat ?chunks) = concat (map (\<lambda>l. l @ [0x0A]) ?ls) @ ?partial"
    by (simp add: decode_text_def decoder_eval)
  have h2: "0x0A \<notin> set ?partial"
    by simp
  have h3: "\<forall>l \<in> set ?ls. 0x0A \<notin> set l"
    by simp
  have pl: "process_lines nts ?ls ([], []) = ((ascii ''Hi'', [OnChunk (JStr (ascii ''Hi''))]), False)"
    by (simp add: decoder_eval)
  have n: "\<not> snd (process_lines nts ?ls ([], []))"
    unfolding pl by simp
  have p: "outcome EndOfData (process_lines nts ?ls ([], [])) =
      ([OnChunk (JStr (ascii ''Hi'')), OnComplete (ascii ''Hi''), ReleaseLock], Inr (ascii ''Hi''))"
    unfolding pl by (simp add: outcome_def)
  note t = partial_last_line_is_kept [OF h1 h2 h3, of nts "[]" EndOfData]
  have r: "snd (processStream nts new_StreamProcessor (Some (?chunks, EndOfData))) =
      ([OnChunk (JStr (ascii ''Hi'')), OnComplete (ascii ''Hi''), ReleaseLock], Inr (ascii ''Hi''))"
    by (rule trans [OF conjunct1 [OF t] p])
  have b: "buffer (fst (processStream nts new_StreamProcessor (Some (?chunks, EndOfData)))) = ?partial"
    by (rule conjunct1 [OF mp [OF conjunct2 [OF t] n]])
  from h1 h2 h3 n r b
  show "decode_text (concat ?chunks) = concat (map (\<lambda>l. l @ [0x0A]) ?ls) @ ?partial \<and>
     0x0A \<notin> set ?partial \<and>
     0x0A \<notin> set (ascii ''data: {\"content\":\"Hi\",\"done\":false}'') \<and>
     0x0A \<notin> set ([] :: jsstring) \<and>
     \<not> snd (process_lines nts ?ls ([], [])) \<and>
     snd (processStream nts new_StreamProcessor (Some (?chunks, EndOfData))) =
       ([OnChunk (JStr (ascii ''Hi'')), OnComplete (ascii ''Hi''), ReleaseLock], Inr (ascii ''Hi'')) \<and>
     buffer (fst (processStream nts new_StreamProcessor (Some (?chunks, EndOfData)))) = ?partial"
    by simp
qed

subsection \<open>C7: the buffer outlives a call\<close>




subsection \<open>C2: a frame with an error\<close>

text \<open>
  A frame whose \<open>error\<close> is truthy leaves the state as it is and the loop goes on; a
  call whose reads end with end-of-data never throws.
\<close>

lemma process_line_error_frame:
  "JSON_parse (drop 6 line) = Some data \<Longrightarrow> truthy nts (get_prop data (ascii ''error'')) \<Longrightarrow>
   process_line nts line st = (st, False)"
  by (simp add: process_line_def)

lemma processStream_never_fails_at_end_of_data:
  "\<exists>t. snd (snd (processStream nts sp (Some (chunks, EndOfData)))) = Inr t"
  by (simp add: processStream_def split: prod.splits bool.splits)

text \<open>
  C2 (not what the code does). Line 40 throws an \<open>Error\<close> for a frame whose \<open>error\<close>
  is set, but the \<open>throw\<close> stands inside the \<open>try\<close> whose \<open>catch\<close> skips malformed
  lines, so it is caught there and the line is skipped like one. In Scenario B (the
  source yields "partial", then throws an error with the message "boom") the encoder
  writes the two frames of the specification, and both decoders end normally:
  \<open>processStream\<close> calls \<open>onComplete\<close> and returns "partial", \<open>chatStream\<close> returns
  "partial"; neither calls its error callback.
\<close>

theorem error_frame_is_swallowed:
  "enqueued (createStreamResponse [text_unit (ascii ''partial'')] (Throws (ErrorObject (ascii ''boom'')))) =
     [ascii_bytes ''data: {\"content\":\"partial\",\"done\":false}'' @ [0x0A, 0x0A],
      ascii_bytes ''data: {\"error\":\"boom\",\"done\":true}'' @ [0x0A, 0x0A]] \<and>
   snd (processStream nts new_StreamProcessor
          (Some ([ascii_bytes ''data: {\"content\":\"partial\",\"done\":false}'' @ [0x0A, 0x0A],
                  ascii_bytes ''data: {\"error\":\"boom\",\"done\":true}'' @ [0x0A, 0x0A]], EndOfData))) =
     ([OnChunk (JStr (ascii ''partial'')), OnComplete (ascii ''partial''), ReleaseLock],
      Inr (ascii ''partial'')) \<and>
   chatStream nts
     (Inr \<lparr>ok = True, status = 200,
           body = Some ([ascii_bytes ''data: {\"content\":\"partial\",\"done\":false}'' @ [0x0A, 0x0A],
                         ascii_bytes ''data: {\"error\":\"boom\",\"done\":true}'' @ [0x0A, 0x0A]],
                        EndOfData)\<rparr>) =
     ([SetIsStreaming True, SetIsLoading True, SetError None, SetResponse [],
       SetResponse (ascii ''partial''), OnStreamChunk (JStr (ascii ''partial'')),
       SetIsLoading False, SetIsStreaming False],
      Inr (ascii ''partial''))"
proof (intro conjI)
  show "enqueued (createStreamResponse [text_unit (ascii ''partial'')] (Throws (ErrorObject (ascii ''boom'')))) =
     [ascii_bytes ''data: {\"content\":\"partial\",\"done\":false}'' @ [0x0A, 0x0A],
      ascii_bytes ''data: {\"error\":\"boom\",\"done\":true}'' @ [0x0A, 0x0A]]"
    by (simp add: encoder_eval)
  show "snd (processStream nts new_StreamProcessor
          (Some ([ascii_bytes ''data: {\"content\":\"partial\",\"done\":false}'' @ [0x0A, 0x0A],
                  ascii_bytes ''data: {\"error\":\"boom\",\"done\":true}'' @ [0x0A, 0x0A]], EndOfData))) =
     ([OnChunk (JStr (ascii ''partial'')), OnComplete (ascii ''partial''), ReleaseLock],
      Inr (ascii ''partial''))"
    by (simp add: decoder_eval)
  show "chatStream nts
     (Inr \<lparr>ok = True, status = 200,
           body = Some ([ascii_bytes ''data: {\"content\":\"partial\",\"done\":false}'' @ [0x0A, 0x0A],
                         ascii_bytes ''data: {\"error\":\"boom\",\"done\":true}'' @ [0x0A, 0x0A]],
                        EndOfData)\<rparr>) =
     ([SetIsStreaming True, SetIsLoading True, SetError None, SetResponse [],
       SetResponse (ascii ''partial''), OnStreamChunk (JStr (ascii ''partial'')),
       SetIsLoading False, SetIsStreaming False],
      Inr (ascii ''partial''))"
    by (simp add: chatStream_def chat_line_def chat_append_content_def decoder_eval)
qed

subsection \<open>C4: the decode loop of chatStream\<close>

text \<open>
  C4 (not what the code does). \<open>chatStream\<close> decodes each chunk on its own
  (\<open>decoder.decode(value)\<close>, not a streaming call) and splits each decoded chunk into
  lines without a buffer, so a frame that arrives in two chunks is lost, and it does not
  call the completion callback at end-of-data. Below, the stream of the one delta
  "Hello" arrives in two chunks, cut inside the first frame: \<open>processStream\<close> delivers
  "Hello", \<open>chatStream\<close> delivers no chunk and completes with the empty string.
\<close>

theorem chatStream_loses_a_split_frame:
  "concat [ascii_bytes ''data: {\"content\":\"Hel'',
           ascii_bytes ''lo\",\"done\":false}'' @ [0x0A, 0x0A] @
             ascii_bytes ''data: {\"content\":\"\",\"done\":true}'' @ [0x0A, 0x0A]] =
     concat (enqueued (createStreamResponse [text_unit (ascii ''Hello'')] Returns)) \<and>
   snd (processStream nts new_StreamProcessor
          (Some ([ascii_bytes ''data: {\"content\":\"Hel'',
                  ascii_bytes ''lo\",\"done\":false}'' @ [0x0A, 0x0A] @
                    ascii_bytes ''data: {\"content\":\"\",\"done\":true}'' @ [0x0A, 0x0A]], EndOfData))) =
     ([OnChunk (JStr (ascii ''Hello'')), OnComplete (ascii ''Hello''), ReleaseLock],
      Inr (ascii ''Hello'')) \<and>
   chatStream nts
     (Inr \<lparr>ok = True, status = 200,
           body = Some ([ascii_bytes ''data: {\"content\":\"Hel'',
                         ascii_bytes ''lo\",\"done\":false}'' @ [0x0A, 0x0A] @
                           ascii_bytes ''data: {\"content\":\"\",\"done\":true}'' @ [0x0A, 0x0A]],
                        EndOfData)\<rparr>) =
     ([SetIsStreaming True, SetIsLoading True, SetError None, SetResponse [],
       OnStreamComplete [], OnSuccess [], SetIsLoading False, SetIsStreaming False],
      Inr [])"
proof (intro conjI)
  show "concat [ascii_bytes ''data: {\"content\":\"Hel'',
           ascii_bytes ''lo\",\"done\":false}'' @ [0x0A, 0x0A] @
             ascii_bytes ''data: {\"content\":\"\",\"done\":true}'' @ [0x0A, 0x0A]] =
     concat (enqueued (createStreamResponse [text_unit (ascii ''Hello'')] Returns))"
    by (simp add: encoder_eval)
  show "snd (processStream nts new_StreamProcessor
          (Some ([ascii_bytes ''data: {\"content\":\"Hel'',
                  ascii_bytes ''lo\",\"done\":false}'' @ [0x0A, 0x0A] @
                    ascii_bytes ''data: {\"content\":\"\",\"done\":true}'' @ [0x0A, 0x0A]], EndOfData))) =
     ([OnChunk (JStr (ascii ''Hello'')), OnComplete (ascii ''Hello''), ReleaseLock],
      Inr (ascii ''Hello''))"
    by (simp add: decoder_eval)
  show "chatStream nts
     (Inr \<lparr>ok = True, status = 200,
           body = Some ([ascii_bytes ''data: {\"content\":\"Hel'',
                         ascii_bytes ''lo\",\"done\":false}'' @ [0x0A, 0x0A] @
                           ascii_bytes ''data: {\"content\":\"\",\"done\":true}'' @ [0x0A, 0x0A]],
                        EndOfData)\<rparr>) =
     ([SetIsStreaming True, SetIsLoading True, SetError None, SetResponse [],
       OnStreamComplete [], OnSuccess [], SetIsLoading False, SetIsStreaming False],
      Inr [])"
    by (simp add: chatStream_def chat_line_def chat_append_content_def decoder_eval)
qed


end
